theory Spec2Isabelle
  imports Complex_Main "HOL-Library.Log_Nat" "HOL-Library.Code_Target_Nat"
begin

section \<open>Strings\<close>

text \<open>
  A JavaScript string is a sequence of UTF-16 code units and \<open>length\<close> counts code
  units. A code unit is modelled by its number; every statement below holds for every list
  of numbers, in particular for those below \<open>65536\<close>. \<open>js\<close> embeds a literal.
\<close>

type_synonym jstring = "nat list"

definition js :: "string \<Rightarrow> jstring" where
  "js s = map of_char s"

text \<open>
  The characters that \<open>String.prototype.trim\<close> strips and that \<open>\s\<close> matches in a
  regular expression: the ECMAScript WhiteSpace and LineTerminator code points.
\<close>

definition is_space :: "nat \<Rightarrow> bool" where
  "is_space c \<longleftrightarrow>
     c = 9 \<or> c = 10 \<or> c = 11 \<or> c = 12 \<or> c = 13 \<or> c = 32 \<or> c = 160 \<or> c = 5760 \<or>
     (8192 \<le> c \<and> c \<le> 8202) \<or> c = 8232 \<or> c = 8233 \<or> c = 8239 \<or> c = 8287 \<or>
     c = 12288 \<or> c = 65279"

definition trim :: "jstring \<Rightarrow> jstring" where
  "trim s = rev (dropWhile is_space (rev (dropWhile is_space s)))"

text \<open>\<open>Array.prototype.join\<close>.\<close>

fun join :: "jstring \<Rightarrow> jstring list \<Rightarrow> jstring" where
  "join sep [] = []"
| "join sep [x] = x"
| "join sep (x # y # ys) = x @ sep @ join sep (y # ys)"

text \<open>
  \<open>text.split(/\r?\n/)\<close>: a line feed (10) ends a line, and a carriage return (13)
  standing right before it belongs to the separator. The empty string gives one empty line.
\<close>

fun split_lines :: "jstring \<Rightarrow> jstring list" where
  "split_lines [] = [[]]"
| "split_lines (c # cs) =
     (if c = 10 then [] # split_lines cs
      else (case cs of
              d # ds \<Rightarrow>
                if c = 13 \<and> d = 10 then [] # split_lines ds
                else (case split_lines cs of l # ls \<Rightarrow> (c # l) # ls | [] \<Rightarrow> [[c]])
            | [] \<Rightarrow> [[c]]))"

text \<open>\<open>splitIntoParagraphs\<close> (the same function in both text matchers).\<close>

definition splitIntoParagraphs :: "jstring \<Rightarrow> jstring list" where
  "splitIntoParagraphs text =
     filter (\<lambda>line. length line > 0) (map (\<lambda>line. trim line) (split_lines text))"

section \<open>Numbers\<close>

text \<open>
  A JavaScript number is an IEEE 754 double. A finite double is a rational number, and
  every arithmetic operation gives the exact result rounded to the nearest double, a tie
  going to the double with the even significand. \<open>fl\<close> is that rounding: \<open>expo x\<close> is the
  exponent \<open>e\<close> with \<open>2^e \<le> |x| < 2^(e+1)\<close>, the doubles around \<open>x\<close> are the multiples of
  \<open>2^(e-52)\<close> (of \<open>2^(-1074)\<close> for a subnormal \<open>x\<close>), and \<open>x\<close> goes to the nearest of them.
  The zero of either sign is the number 0.
  A sum, difference, product or quotient of the source is written \<open>fl\<close> of the exact one, and
  a decimal literal is \<open>fl\<close> of its value. The length of a string is below \<open>2^53\<close> and so a
  double already. No number of this program is as large as \<open>2^1024\<close>, where a double
  overflows: the largest is 1.3 times the length of a string.
\<close>

type_synonym number = rat

definition pow2 :: "int \<Rightarrow> rat" where
  "pow2 e = (if e \<ge> 0 then 2 ^ nat e else 1 / 2 ^ nat (- e))"

definition expo :: "rat \<Rightarrow> int" where
  "expo x = (let (p, q) = quotient_of \<bar>x\<bar>; e = bitlen p - bitlen q
             in if pow2 e \<le> \<bar>x\<bar> then e else e - 1)"

definition round_even :: "rat \<Rightarrow> int" where
  "round_even m = (let f = \<lfloor>m\<rfloor>; d = m - of_int f
                   in if d < 1 / 2 then f else if d > 1 / 2 then f + 1
                      else if even f then f else f + 1)"

text \<open>The distance between the doubles around \<open>x\<close>, and the rounding.\<close>

definition quantum :: "rat \<Rightarrow> rat" where
  "quantum x = pow2 (max (expo x) (- 1022) - 52)"

definition fl :: "rat \<Rightarrow> number" where
  "fl x = (if x = 0 then 0
           else let q = quantum x in of_int (round_even (x / q)) * q)"

section \<open>Segments, statistics and the result of a match\<close>

record segment =
  seg_id :: nat
  seg_text :: jstring
  xmlPath :: jstring

text \<open>The counters are JavaScript numbers that are incremented and decremented.\<close>

record stats =
  st_total :: int
  st_matched :: int
  st_fuzzy :: int
  st_unmatched :: int
  st_method :: string

text \<open>
  \<open>mapping\<close> is the \<open>Map\<close> from segment id to translated text, \<open>unmatched\<close> the array of
  segments left without a translation.
\<close>

record match_result =
  mapping :: "nat \<rightharpoonup> jstring"
  unmatched :: "segment list"
  stats :: stats

definition init_stats :: "segment list \<Rightarrow> stats" where
  "init_stats sourceSegments =
     \<lparr>st_total = int (length sourceSegments), st_matched = 0, st_fuzzy = 0,
      st_unmatched = 0, st_method = ''''\<rparr>"

section \<open>The strict positional matcher (src/engine/textMatcher.js)\<close>

text \<open>
  The \<open>onProgress\<close> callback only reports; it is left out. Each loop over
  \<open>i = 0 .. srcCount - 1\<close> is a fold of its body over the indices.
\<close>

text \<open>Case 1, shared with the adaptive matcher: \<open>mapping.set(sourceSegments[i].id, translatedParagraphs[i])\<close>.\<close>

definition set_identity :: "segment list \<Rightarrow> jstring list \<Rightarrow> nat \<Rightarrow> (nat \<rightharpoonup> jstring) \<Rightarrow> (nat \<rightharpoonup> jstring)" where
  "set_identity sourceSegments translatedParagraphs i m =
     m(seg_id (sourceSegments ! i) \<mapsto> translatedParagraphs ! i)"

definition structure_1to1 :: "segment list \<Rightarrow> jstring list \<Rightarrow> match_result" where
  "structure_1to1 sourceSegments translatedParagraphs =
     \<lparr>mapping = fold (set_identity sourceSegments translatedParagraphs)
                  [0 ..< length sourceSegments] Map.empty,
      unmatched = [],
      stats = (init_stats sourceSegments)
                \<lparr>st_method := ''structure-1:1'', st_matched := int (length sourceSegments)\<rparr>\<rparr>"

text \<open>Case 2: more segments than paragraphs.\<close>

definition partial_step :: "segment list \<Rightarrow> jstring list \<Rightarrow> nat \<Rightarrow> match_result \<Rightarrow> match_result" where
  "partial_step sourceSegments translatedParagraphs i r =
     (if i < length translatedParagraphs
      then r\<lparr>mapping := (mapping r)(seg_id (sourceSegments ! i) \<mapsto> translatedParagraphs ! i),
             stats := (stats r)\<lparr>st_matched := st_matched (stats r) + 1\<rparr>\<rparr>
      else r\<lparr>unmatched := unmatched r @ [sourceSegments ! i],
             stats := (stats r)\<lparr>st_unmatched := st_unmatched (stats r) + 1\<rparr>\<rparr>)"

definition sequential_partial :: "segment list \<Rightarrow> jstring list \<Rightarrow> match_result" where
  "sequential_partial sourceSegments translatedParagraphs =
     fold (partial_step sourceSegments translatedParagraphs) [0 ..< length sourceSegments]
       \<lparr>mapping = Map.empty, unmatched = [],
        stats = (init_stats sourceSegments)\<lparr>st_method := ''sequential-partial''\<rparr>\<rparr>"

text \<open>Case 3: more paragraphs than segments; the last segment takes \<open>slice(i).join(' ')\<close>.\<close>

definition merge_step :: "segment list \<Rightarrow> jstring list \<Rightarrow> nat \<Rightarrow> match_result \<Rightarrow> match_result" where
  "merge_step sourceSegments translatedParagraphs i r =
     (let m = (if int i < int (length sourceSegments) - 1
               then (mapping r)(seg_id (sourceSegments ! i) \<mapsto> translatedParagraphs ! i)
               else (mapping r)(seg_id (sourceSegments ! i) \<mapsto>
                      join [32] (drop i translatedParagraphs)))
      in r\<lparr>mapping := m, stats := (stats r)\<lparr>st_matched := st_matched (stats r) + 1\<rparr>\<rparr>)"

definition sequential_merge :: "segment list \<Rightarrow> jstring list \<Rightarrow> match_result" where
  "sequential_merge sourceSegments translatedParagraphs =
     (let r = fold (merge_step sourceSegments translatedParagraphs) [0 ..< length sourceSegments]
                \<lparr>mapping = Map.empty, unmatched = [],
                 stats = (init_stats sourceSegments)\<lparr>st_method := ''sequential-merge''\<rparr>\<rparr>
      in r\<lparr>stats := (stats r)\<lparr>st_fuzzy :=
              int (length translatedParagraphs) - int (length sourceSegments)\<rparr>\<rparr>)"

definition matchTexts_strict :: "segment list \<Rightarrow> jstring \<Rightarrow> match_result" where
  "matchTexts_strict sourceSegments translationText =
     (let translatedParagraphs = splitIntoParagraphs translationText;
          srcCount = length sourceSegments;
          trgCount = length translatedParagraphs
      in if srcCount = trgCount then structure_1to1 sourceSegments translatedParagraphs
         else if srcCount > trgCount then sequential_partial sourceSegments translatedParagraphs
         else sequential_merge sourceSegments translatedParagraphs)"

section \<open>Regular expressions\<close>

text \<open>
  The anchors of the adaptive matcher are found with regular expressions. \<open>ends r s i\<close>
  lists the positions at which a match of \<open>r\<close> that starts at position \<open>i\<close> of \<open>s\<close> can end,
  in the order in which a backtracking matcher tries them: a greedy star first tries one
  more iteration (an iteration that consumes nothing is rejected), an optional part is
  first tried present. \<open>Behind r\<close> is the lookbehind \<open>(?<=r)\<close>: it holds at \<open>i\<close> when \<open>r\<close>
  matches some part of \<open>s\<close> that ends at \<open>i\<close>.
\<close>

datatype rx = Atom "nat \<Rightarrow> bool" | Seq rx rx | Opt rx | Star rx | Behind rx

function ends :: "rx \<Rightarrow> jstring \<Rightarrow> nat \<Rightarrow> nat list" where
  "ends (Atom p) s i = (if i < length s \<and> p (s ! i) then [Suc i] else [])"
| "ends (Seq a b) s i = concat (map (\<lambda>j. ends b s j) (ends a s i))"
| "ends (Opt a) s i = ends a s i @ [i]"
| "ends (Star a) s i =
     concat (map (\<lambda>j. if i < j \<and> j \<le> length s then ends (Star a) s j else []) (ends a s i)) @ [i]"
| "ends (Behind a) s i = (if \<exists>j \<in> set [0 ..< Suc i]. i \<in> set (ends a s j) then [i] else [])"
  by pat_completeness auto
termination
  by (relation "measures [\<lambda>(r, s, i). size r, \<lambda>(r, s, i). length s - i]") auto

definition Plus :: "rx \<Rightarrow> rx" where
  "Plus a = Seq a (Star a)"

text \<open>
  \<open>text.match(/r/g)\<close>: the matches from left to right, each the first one the matcher finds
  at the leftmost position where any exists; the search goes on at the end of the match
  (one further after an empty match). No match gives \<open>null\<close>, which the callers treat as
  no element.
\<close>

function match_from :: "rx \<Rightarrow> jstring \<Rightarrow> nat \<Rightarrow> jstring list" where
  "match_from r s i =
     (if i > length s then []
      else (case ends r s i of
              [] \<Rightarrow> match_from r s (Suc i)
            | e # _ \<Rightarrow> take (e - i) (drop i s) # match_from r s (if e \<le> i then Suc i else e)))"
  by pat_completeness auto
termination
  by (relation "measure (\<lambda>(r, s, i). Suc (length s) - i)") auto

declare match_from.simps [simp del]

definition match_all :: "rx \<Rightarrow> jstring \<Rightarrow> jstring list" where
  "match_all r s = match_from r s 0"

definition one_of :: "string \<Rightarrow> nat \<Rightarrow> bool" where
  "one_of cs c \<longleftrightarrow> c \<in> of_char ` set cs"

definition is_digit :: "nat \<Rightarrow> bool" where
  "is_digit c \<longleftrightarrow> 48 \<le> c \<and> c \<le> 57"

definition is_upper :: "nat \<Rightarrow> bool" where
  "is_upper c \<longleftrightarrow> 65 \<le> c \<and> c \<le> 90"

definition is_lower :: "nat \<Rightarrow> bool" where
  "is_lower c \<longleftrightarrow> 97 \<le> c \<and> c \<le> 122"

text \<open>\<open>\w\<close> is \<open>[A-Za-z0-9_]\<close>.\<close>

definition is_word :: "nat \<Rightarrow> bool" where
  "is_word c \<longleftrightarrow> is_upper c \<or> is_lower c \<or> is_digit c \<or> c = 95"

text \<open>\<open>/\d+([.,]\d+)*/\<close>\<close>

definition rx_number :: rx where
  "rx_number =
     Seq (Plus (Atom is_digit)) (Star (Seq (Atom (one_of ''.,'')) (Plus (Atom is_digit))))"

text \<open>\<open>/[\w.-]+@[\w.-]+\.\w+/\<close>\<close>

definition rx_email :: rx where
  "rx_email =
     Seq (Plus (Atom (\<lambda>c. is_word c \<or> one_of ''.-'' c)))
    (Seq (Atom (one_of ''@''))
    (Seq (Plus (Atom (\<lambda>c. is_word c \<or> one_of ''.-'' c)))
    (Seq (Atom (one_of ''.'')) (Plus (Atom is_word)))))"

text \<open>\<open>/https?:\/\/\S+/\<close>\<close>

definition rx_url :: rx where
  "rx_url =
     Seq (Atom (one_of ''h'')) (Seq (Atom (one_of ''t'')) (Seq (Atom (one_of ''t''))
    (Seq (Atom (one_of ''p'')) (Seq (Opt (Atom (one_of ''s''))) (Seq (Atom (one_of '':''))
    (Seq (Atom (one_of ''/'')) (Seq (Atom (one_of ''/''))
         (Plus (Atom (\<lambda>c. \<not> is_space c))))))))))"

text \<open>
  \<open>/(?<=[.!?]\s+\w+\s+)[A-Z][a-z...]+/\<close>, where the second range of the last class runs from
  U+00C0 to U+00FF.
\<close>

definition rx_proper :: rx where
  "rx_proper =
     Seq (Behind (Seq (Atom (one_of ''.!?'')) (Seq (Plus (Atom is_space))
            (Seq (Plus (Atom is_word)) (Plus (Atom is_space))))))
    (Seq (Atom is_upper) (Plus (Atom (\<lambda>c. is_lower c \<or> (192 \<le> c \<and> c \<le> 255)))))"

section \<open>The adaptive matcher (the multi-level text matcher)\<close>

text \<open>\<open>text.replace(/\s+/g, ' ')\<close>: every maximal run of white space becomes one space.\<close>

function collapse_ws :: "jstring \<Rightarrow> jstring" where
  "collapse_ws [] = []"
| "collapse_ws (c # cs) =
     (if is_space c then 32 # collapse_ws (dropWhile is_space cs) else c # collapse_ws cs)"
  by pat_completeness auto
termination
  by (relation "measure length") (auto simp: less_Suc_eq_le length_dropWhile_le)

definition normalize_text :: "jstring \<Rightarrow> jstring" where
  "normalize_text text = trim (collapse_ws text)"

text \<open>
  \<open>split(/(\s+)/)\<close> keeps the separators: words and runs of white space alternate, starting
  and ending with a (possibly empty) word. \<open>split(/\s+/)\<close> drops the separators.
\<close>

function split_keep :: "jstring \<Rightarrow> jstring list" where
  "split_keep s =
     (let w = takeWhile (\<lambda>c. \<not> is_space c) s;
          r = dropWhile (\<lambda>c. \<not> is_space c) s
      in if r = [] then [w]
         else w # takeWhile is_space r # split_keep (dropWhile is_space r))"
  by pat_completeness auto
termination
proof (relation "measure length")
  show "wf (measure length)" by simp
next
  fix s :: jstring and w r
  assume r: "r = dropWhile (\<lambda>c. \<not> is_space c) s" and ne: "r \<noteq> []"
  from r ne have "is_space (hd r)"
    using hd_dropWhile [of "\<lambda>c. \<not> is_space c" s] by auto
  with ne have "length (dropWhile is_space r) < length r"
    by (cases r) (auto simp: less_Suc_eq_le length_dropWhile_le)
  moreover have "length r \<le> length s"
    using r by (simp add: length_dropWhile_le)
  ultimately show "(dropWhile is_space r, s) \<in> measure length" by simp
qed

declare split_keep.simps [simp del]

function split_ws :: "jstring \<Rightarrow> jstring list" where
  "split_ws s =
     (let w = takeWhile (\<lambda>c. \<not> is_space c) s;
          r = dropWhile (\<lambda>c. \<not> is_space c) s
      in if r = [] then [w] else w # split_ws (dropWhile is_space r))"
  by pat_completeness auto
termination
proof (relation "measure length")
  show "wf (measure length)" by simp
next
  fix s :: jstring and w r
  assume r: "r = dropWhile (\<lambda>c. \<not> is_space c) s" and ne: "r \<noteq> []"
  from r ne have "is_space (hd r)"
    using hd_dropWhile [of "\<lambda>c. \<not> is_space c" s] by auto
  with ne have "length (dropWhile is_space r) < length r"
    by (cases r) (auto simp: less_Suc_eq_le length_dropWhile_le)
  moreover have "length r \<le> length s"
    using r by (simp add: length_dropWhile_le)
  ultimately show "(dropWhile is_space r, s) \<in> measure length" by simp
qed

declare split_ws.simps [simp del]

text \<open>A \<open>Set\<close> of strings, as the list of its elements in insertion order.\<close>

definition set_add :: "jstring \<Rightarrow> jstring list \<Rightarrow> jstring list" where
  "set_add x xs = (if x \<in> set xs then xs else xs @ [x])"

definition extractAnchors :: "jstring \<Rightarrow> jstring list" where
  "extractAnchors text =
     (let anchors = [];
          nums = match_all rx_number text;
          anchors = fold set_add nums anchors;
          emails = match_all rx_email text;
          anchors = fold set_add emails anchors;
          urls = match_all rx_url text;
          anchors = fold set_add urls anchors;
          properNouns = match_all rx_proper text;
          anchors = fold set_add properNouns anchors
      in anchors)"

definition anchorScore :: "jstring \<Rightarrow> jstring \<Rightarrow> number" where
  "anchorScore sourceText translatedText =
     (let srcAnchors = extractAnchors sourceText;
          tgtAnchors = extractAnchors translatedText
      in if length srcAnchors = 0 then 0
         else fl (of_nat (length (filter (\<lambda>a. a \<in> set tgtAnchors) srcAnchors)) /
                  of_nat (length srcAnchors)))"

text \<open>
  \<open>similarity\<close>. The matrix of edit distances is built row by row: \<open>lev_row x b prev left\<close>
  continues row \<open>i\<close> (the row of the character \<open>x\<close> of \<open>a\<close>) from the entry \<open>left\<close> to its
  left and the rest \<open>prev\<close> of row \<open>i - 1\<close>. Row \<open>0\<close> is \<open>0, 1, ..., lb\<close>; row \<open>i\<close> starts
  with \<open>i\<close>.
\<close>

fun lev_row :: "nat \<Rightarrow> jstring \<Rightarrow> nat list \<Rightarrow> nat \<Rightarrow> nat list" where
  "lev_row x (y # ys) (d # u # prev) left =
     (let cost = (if x = y then 0 else 1);
          v = min (min (u + 1) (left + 1)) (d + cost)
      in v # lev_row x ys (u # prev) v)"
| "lev_row x ys prev left = []"

definition lev_matrix_last :: "jstring \<Rightarrow> jstring \<Rightarrow> nat" where
  "lev_matrix_last a b =
     last (fold (\<lambda>(i, x) prev. i # lev_row x b prev i) (zip [1 ..< Suc (length a)] a)
             [0 ..< Suc (length b)])"

text \<open>
  \<open>toLowerCase\<close> on Basic Latin and Latin-1; other code units are left as they are. It is
  used only for strings of more than 500 code units, and \<open>matchTexts\<close> passes at most 100.
\<close>

definition toLowerCase :: "jstring \<Rightarrow> jstring" where
  "toLowerCase s =
     map (\<lambda>c. if is_upper c \<or> (192 \<le> c \<and> c \<le> 222 \<and> c \<noteq> 215) then c + 32 else c) s"

definition similarity :: "jstring \<Rightarrow> jstring \<Rightarrow> number" where
  "similarity a b =
     (if a = b then 1
      else if a = [] \<or> b = [] then 0
      else
        let la = length a; lb = length b in
        if fl (\<bar>of_nat la - of_nat lb\<bar> / of_nat (max la lb)) > fl (8 / 10) then 0
        else if la > 500 \<or> lb > 500 then
          (let wordsA = fold set_add (split_ws (toLowerCase a)) [];
               wordsB = fold set_add (split_ws (toLowerCase b)) [];
               common = length (filter (\<lambda>w. w \<in> set wordsB) wordsA)
           in fl (of_nat (2 * common) / of_nat (length wordsA + length wordsB)))
        else
          (let maxLen = max la lb
           in fl (1 - fl (of_nat (lev_matrix_last a b) / of_nat maxLen))))"

text \<open>
  The state of the adaptive matcher: the three results, the scan pointer \<open>tIdx\<close>, the set
  \<open>usedTranslations\<close>, the Level 3 arrays \<open>unusedTranslations\<close> (its entries are the pairs of
  a paragraph and its index) and \<open>stillUnmatched\<close>. Two more fields record what the source
  does not keep: for each segment that Level 1 or 2 handles, and for each segment that
  Level 3 handles, the index of the translated paragraph it was given, if any. These two
  fields are written and never read.
\<close>

record astate =
  a_mapping :: "nat \<rightharpoonup> jstring"
  a_unmatched :: "segment list"
  a_stats :: stats
  tIdx :: nat
  usedTranslations :: "nat set"
  unusedTranslations :: "(jstring \<times> nat) list"
  stillUnmatched :: "segment list"
  given2 :: "nat option list"
  given3 :: "nat option list"

text \<open>
  The score of the candidate in window slot \<open>w\<close> (the body of the inner loop of Level 2);
  the sum is taken from left to right. When both strings are empty the quotient of the
  source is not a number, the comparison with 0.3 is false and the bonus is 0; here the
  quotient is 0, with the same bonus.
\<close>

definition totalScore2 :: "jstring \<Rightarrow> jstring \<Rightarrow> nat \<Rightarrow> number" where
  "totalScore2 normSource normTrans w =
     (let aScore = anchorScore normSource normTrans;
          positionBonus = fl (1 - fl (of_nat w * fl (1 / 10)));
          lenRatio = fl (of_nat (min (length normSource) (length normTrans)) /
                         of_nat (max (length normSource) (length normTrans)));
          lenBonus = (if lenRatio > fl (3 / 10) then fl (lenRatio * fl (3 / 10)) else 0)
      in fl (fl (fl (aScore * fl (4 / 10)) + fl (positionBonus * fl (3 / 10))) +
             fl (lenBonus * fl (3 / 10))))"

text \<open>
  The inner loop over the window slots, on the pair \<open>(bestMatch, bestScore)\<close>; \<open>bestMatch\<close>
  is \<open>None\<close> where the source has \<open>-1\<close>.
\<close>

fun scan_window ::
  "jstring \<Rightarrow> jstring list \<Rightarrow> nat \<Rightarrow> nat set \<Rightarrow> nat list \<Rightarrow> nat option \<times> number \<Rightarrow>
     nat option \<times> number"
where
  "scan_window normSource translatedParagraphs t used [] best = best"
| "scan_window normSource translatedParagraphs t used (w # ws) best =
     (let candidateIdx = t + w in
      if candidateIdx \<ge> length translatedParagraphs then best
      else if candidateIdx \<in> used
        then scan_window normSource translatedParagraphs t used ws best
      else
        let normTrans = normalize_text (translatedParagraphs ! candidateIdx);
            total = totalScore2 normSource normTrans w
        in scan_window normSource translatedParagraphs t used ws
             (if total > snd best then (Some candidateIdx, total) else best))"

definition take_candidate :: "jstring list \<Rightarrow> segment \<Rightarrow> nat \<Rightarrow> bool \<Rightarrow> astate \<Rightarrow> astate" where
  "take_candidate translatedParagraphs segment k fuzzy st =
     st\<lparr>a_mapping := (a_mapping st)(seg_id segment \<mapsto> translatedParagraphs ! k),
        usedTranslations := insert k (usedTranslations st),
        tIdx := k + 1,
        a_stats := (a_stats st)\<lparr>st_matched := st_matched (a_stats st) + 1,
                     st_fuzzy := st_fuzzy (a_stats st) + (if fuzzy then 1 else 0)\<rparr>,
        given2 := given2 st @ [Some k]\<rparr>"

definition defer_segment :: "segment \<Rightarrow> astate \<Rightarrow> astate" where
  "defer_segment segment st =
     st\<lparr>a_unmatched := a_unmatched st @ [segment],
        a_stats := (a_stats st)\<lparr>st_unmatched := st_unmatched (a_stats st) + 1\<rparr>,
        given2 := given2 st @ [None]\<rparr>"

definition positional_fallback :: "jstring list \<Rightarrow> segment \<Rightarrow> astate \<Rightarrow> astate" where
  "positional_fallback translatedParagraphs segment st =
     (if tIdx st < length translatedParagraphs \<and> tIdx st \<notin> usedTranslations st
      then take_candidate translatedParagraphs segment (tIdx st) True st
      else defer_segment segment st)"

text \<open>The body of the Level 2 loop, for one segment.\<close>

definition level2_step :: "jstring list \<Rightarrow> segment \<Rightarrow> astate \<Rightarrow> astate" where
  "level2_step translatedParagraphs segment st =
     (let normSource = normalize_text (seg_text segment);
          windowSize = min 5 (length translatedParagraphs - tIdx st);
          (bestMatch, bestScore) =
            scan_window normSource translatedParagraphs (tIdx st) (usedTranslations st)
              [0 ..< windowSize] (None, 0)
      in case bestMatch of
           Some k \<Rightarrow>
             if bestScore > fl (2 / 10)
             then take_candidate translatedParagraphs segment k (bestScore < fl (6 / 10)) st
             else positional_fallback translatedParagraphs segment st
         | None \<Rightarrow> positional_fallback translatedParagraphs segment st)"

text \<open>Level 3: the score of a candidate, the search for the best one, and the loop body.\<close>

definition totalScore3 :: "segment \<Rightarrow> jstring \<times> nat \<Rightarrow> number" where
  "totalScore3 segment candidate =
     (let aScore = anchorScore (seg_text segment) (fst candidate);
          simScore = similarity (take 100 (normalize_text (seg_text segment)))
                       (take 100 (normalize_text (fst candidate)))
      in fl (fl (aScore * fl (5 / 10)) + fl (simScore * fl (5 / 10))))"

fun scan_unused ::
  "segment \<Rightarrow> (jstring \<times> nat) list \<Rightarrow> (jstring \<times> nat) option \<times> number \<Rightarrow>
     (jstring \<times> nat) option \<times> number"
where
  "scan_unused segment [] best = best"
| "scan_unused segment (candidate # cs) best =
     (let total = totalScore3 segment candidate
      in scan_unused segment cs
           (if total > snd best \<and> total > fl (3 / 10) then (Some candidate, total) else best))"

text \<open>
  \<open>splice(indexOf(bestMatch), 1)\<close> removes the entry that is \<open>bestMatch\<close>; the entries carry
  different indices, so it is the first entry equal to it.
\<close>

definition give_unused :: "segment \<Rightarrow> jstring \<times> nat \<Rightarrow> astate \<Rightarrow> astate" where
  "give_unused segment candidate st =
     st\<lparr>a_mapping := (a_mapping st)(seg_id segment \<mapsto> fst candidate),
        unusedTranslations := remove1 candidate (unusedTranslations st),
        a_stats := (a_stats st)\<lparr>st_matched := st_matched (a_stats st) + 1,
                     st_unmatched := st_unmatched (a_stats st) - 1,
                     st_fuzzy := st_fuzzy (a_stats st) + 1\<rparr>,
        given3 := given3 st @ [Some (snd candidate)]\<rparr>"

definition keep_unmatched :: "segment \<Rightarrow> astate \<Rightarrow> astate" where
  "keep_unmatched segment st =
     st\<lparr>stillUnmatched := stillUnmatched st @ [segment], given3 := given3 st @ [None]\<rparr>"

definition level3_step :: "segment \<Rightarrow> astate \<Rightarrow> astate" where
  "level3_step segment st =
     (let (bestMatch, bestScore) = scan_unused segment (unusedTranslations st) (None, 0)
      in case bestMatch of
           Some candidate \<Rightarrow> give_unused segment candidate st
         | None \<Rightarrow> keep_unmatched segment st)"

definition level3 :: "jstring list \<Rightarrow> astate \<Rightarrow> astate" where
  "level3 translatedParagraphs st =
     (if length (a_unmatched st) > 0 then
        let unused = filter (\<lambda>t. snd t \<notin> usedTranslations st)
                       (zip translatedParagraphs [0 ..< length translatedParagraphs]);
            st' = fold level3_step (a_unmatched st)
                    (st\<lparr>unusedTranslations := unused, stillUnmatched := []\<rparr>)
        in st'\<lparr>a_unmatched := stillUnmatched st'\<rparr>
      else st)"

definition init_astate :: "segment list \<Rightarrow> astate" where
  "init_astate sourceSegments =
     \<lparr>a_mapping = Map.empty, a_unmatched = [], a_stats = init_stats sourceSegments,
      tIdx = 0, usedTranslations = {}, unusedTranslations = [], stillUnmatched = [],
      given2 = [], given3 = []\<rparr>"

definition level2 :: "segment list \<Rightarrow> jstring list \<Rightarrow> astate" where
  "level2 sourceSegments translatedParagraphs =
     fold (level2_step translatedParagraphs) sourceSegments
       ((init_astate sourceSegments)
          \<lparr>a_stats := (init_stats sourceSegments)\<lparr>st_method := ''sequential-flex''\<rparr>\<rparr>)"

definition adaptive_run :: "segment list \<Rightarrow> jstring \<Rightarrow> astate" where
  "adaptive_run sourceSegments translationText =
     (let translatedParagraphs = splitIntoParagraphs translationText
      in if length sourceSegments = length translatedParagraphs
         then (init_astate sourceSegments)
                \<lparr>a_mapping := mapping (structure_1to1 sourceSegments translatedParagraphs),
                 a_stats := stats (structure_1to1 sourceSegments translatedParagraphs),
                 given2 := map Some [0 ..< length sourceSegments]\<rparr>
         else level3 translatedParagraphs (level2 sourceSegments translatedParagraphs))"

definition matchTexts_adaptive :: "segment list \<Rightarrow> jstring \<Rightarrow> match_result" where
  "matchTexts_adaptive sourceSegments translationText =
     (let st = adaptive_run sourceSegments translationText
      in \<lparr>mapping = a_mapping st, unmatched = a_unmatched st, stats = a_stats st\<rparr>)"

text \<open>
  The paragraph index consumed for each segment, in segment order: the Level 2 record,
  where each segment that Level 2 left unmatched takes the next entry of the Level 3 record.
\<close>

fun consumed :: "nat option list \<Rightarrow> nat option list \<Rightarrow> nat option list" where
  "consumed [] g3 = []"
| "consumed (Some k # g2) g3 = Some k # consumed g2 g3"
| "consumed (None # g2) [] = None # consumed g2 []"
| "consumed (None # g2) (x # g3) = x # consumed g2 g3"

text \<open>The indices in such a record, in order.\<close>

fun somes :: "'a option list \<Rightarrow> 'a list" where
  "somes [] = []"
| "somes (None # xs) = somes xs"
| "somes (Some x # xs) = x # somes xs"

definition consumed_indices :: "segment list \<Rightarrow> jstring \<Rightarrow> nat option list" where
  "consumed_indices sourceSegments translationText =
     (let st = adaptive_run sourceSegments translationText in consumed (given2 st) (given3 st))"

section \<open>The rewrite engine (src/engine/docxRebuilder.js, src/engine/pptxRebuilder.js)\<close>

text \<open>
  A run, as far as the rebuilders read and write it: its run properties (\<open>None\<close> when the
  run has no \<open>rPr\<close> child, else the children of \<open>rPr\<close> in order) and the text contents of
  its text nodes (\<open>w:t\<close>, \<open>a:t\<close>) in order. A child of \<open>rPr\<close> is a highlight with its value
  (\<open>w:val\<close>, or the \<open>val\<close> of its \<open>srgbClr\<close>), or some other property. A paragraph is the list
  of runs that \<open>getDirectRuns\<close> (\<open>getPptxRuns\<close>) returns.
\<close>

datatype rprop = Highlight string | OtherProp string

record run =
  rPr :: "rprop list option"
  textNodes :: "jstring list"

type_synonym para = "run list"

definition runText :: "run \<Rightarrow> jstring" where
  "runText r = concat (textNodes r)"

definition extractTextFromParagraph :: "para \<Rightarrow> jstring" where
  "extractTextFromParagraph paraElement = concat (map runText paraElement)"

definition isContentParagraph :: "para \<Rightarrow> bool" where
  "isContentParagraph paraElement \<longleftrightarrow> length (trim (extractTextFromParagraph paraElement)) > 0"

text \<open>
  Writing a chunk into a run: the first text node takes it, the other text nodes of the run
  are cleared.
\<close>

definition set_run_text :: "run \<Rightarrow> jstring \<Rightarrow> run" where
  "set_run_text ri chunk =
     (if length (textNodes ri) \<ge> 1
      then ri\<lparr>textNodes := chunk # map (\<lambda>t. []) (tl (textNodes ri))\<rparr>
      else ri)"

text \<open>
  The \<open>while\<close> loop that fills the chunk of a run that is not the last: \<open>ws\<close> are the words
  from \<open>wordIdx\<close> on; the result is the chunk and the words left.
\<close>

fun take_words :: "number \<Rightarrow> jstring \<Rightarrow> jstring list \<Rightarrow> jstring \<times> jstring list" where
  "take_words target chunk [] = (chunk, [])"
| "take_words target chunk (nextWord # ws) =
     (if length chunk > 0 \<and> of_nat (length chunk + length nextWord) > fl (target * fl (13 / 10))
      then (chunk, nextWord # ws)
      else
        let chunk' = chunk @ nextWord in
        if of_nat (length chunk') \<ge> target \<and> ws \<noteq> [] then (chunk', ws)
        else take_words target chunk' ws)"

text \<open>The loop over the text runs, on their target lengths: the chunk of each.\<close>

fun distribute :: "number list \<Rightarrow> jstring list \<Rightarrow> jstring list" where
  "distribute [] ws = []"
| "distribute [target] ws = [concat ws]"
| "distribute (target # t # ts) ws =
     (let (chunk, rest) = take_words target [] ws in chunk # distribute (t # ts) rest)"

text \<open>The chunks go to the runs that carry text, in order; the other runs are passed over.\<close>

fun write_chunks :: "para \<Rightarrow> jstring list \<Rightarrow> para" where
  "write_chunks [] cs = []"
| "write_chunks (r # rs) cs =
     (if length (runText r) > 0
      then (case cs of
              c # cs' \<Rightarrow> set_run_text r c # write_chunks rs cs'
            | [] \<Rightarrow> r # write_chunks rs [])
      else r # write_chunks rs cs)"

text \<open>
  \<open>Math.round\<close> rounds a double to the nearest integer, a half upwards; the result is
  exact.
\<close>

definition js_round :: "number \<Rightarrow> number" where
  "js_round x = of_int \<lfloor>x + 1 / 2\<rfloor>"

text \<open>
  \<open>replaceParagraphText\<close>; \<open>replacePptxParagraphText\<close> is the same function, without the
  \<open>xml:space\<close> attribute that the DOCX one sets on the text node it writes.
\<close>

definition replaceParagraphText :: "para \<Rightarrow> jstring \<Rightarrow> para" where
  "replaceParagraphText runs newText =
     (if length runs = 0 then runs
      else
        let totalOriginalLen = sum_list (map (\<lambda>r. length (runText r)) runs);
            textRuns = filter (\<lambda>ri. length (runText ri) > 0) runs
        in if length textRuns = 0 then runs
           else if length textRuns = 1 then write_chunks runs [newText]
           else
             let words = split_keep newText;
                 totalNewLen = length newText;
                 targetLengths =
                   map (\<lambda>ri. js_round (fl (fl (of_nat (length (runText ri)) /
                                                of_nat totalOriginalLen)
                                            * of_nat totalNewLen))) textRuns
             in write_chunks runs (distribute targetLengths words))"

definition replacePptxParagraphText :: "para \<Rightarrow> jstring \<Rightarrow> para" where
  "replacePptxParagraphText runs newText = replaceParagraphText runs newText"

text \<open>
  The untranslated flag: every highlight is removed from the run properties (created empty
  when the run has none) and a red one is appended.
\<close>

definition is_highlight :: "rprop \<Rightarrow> bool" where
  "is_highlight p = (case p of Highlight v \<Rightarrow> True | OtherProp n \<Rightarrow> False)"

definition highlight_run :: "string \<Rightarrow> run \<Rightarrow> run" where
  "highlight_run red r =
     (let props = (case rPr r of None \<Rightarrow> [] | Some ps \<Rightarrow> ps)
      in r\<lparr>rPr := Some (filter (\<lambda>p. \<not> is_highlight p) props @ [Highlight red])\<rparr>)"

definition highlightParagraphRed :: "para \<Rightarrow> para" where
  "highlightParagraphRed runs = map (highlight_run ''red'') runs"

definition highlightPptxParagraphRed :: "para \<Rightarrow> para" where
  "highlightPptxParagraphRed runs = map (highlight_run ''FF0000'') runs"

text \<open>
  The loop of \<open>rebuildDocx\<close> and \<open>rebuildPptx\<close> over the content paragraphs of one file:
  paragraph \<open>i\<close> goes with segment \<open>i\<close>, for \<open>i\<close> below the smaller of the two counts. The
  paragraphs are changed in place, which is an update of the list at \<open>i\<close>.
\<close>

definition rebuild_step ::
  "(para \<Rightarrow> jstring \<Rightarrow> para) \<Rightarrow> (para \<Rightarrow> para) \<Rightarrow> (nat \<rightharpoonup> jstring) \<Rightarrow> segment list \<Rightarrow> nat \<Rightarrow>
   para list \<Rightarrow> para list"
where
  "rebuild_step replace_text highlight m fileSegments i contentParas =
     (let segment = fileSegments ! i
      in case m (seg_id segment) of
           Some translatedText \<Rightarrow> contentParas[i := replace_text (contentParas ! i) translatedText]
         | None \<Rightarrow> contentParas[i := highlight (contentParas ! i)])"

definition rebuild_file ::
  "(para \<Rightarrow> jstring \<Rightarrow> para) \<Rightarrow> (para \<Rightarrow> para) \<Rightarrow> (nat \<rightharpoonup> jstring) \<Rightarrow> segment list \<Rightarrow>
   para list \<Rightarrow> para list"
where
  "rebuild_file replace_text highlight m fileSegments contentParas =
     (let count = min (length contentParas) (length fileSegments)
      in fold (rebuild_step replace_text highlight m fileSegments) [0 ..< count] contentParas)"

text \<open>
  \<open>rebuildDocx\<close>: a file is given by its path and the paragraphs that \<open>getAllParagraphs\<close>
  finds in it, in order; the result gives, for each file, its content paragraphs after the
  rewrite. A file without segments is skipped. Writing the archive is left out.
\<close>

definition rebuildDocx ::
  "(jstring \<times> para list) list \<Rightarrow> segment list \<Rightarrow> (nat \<rightharpoonup> jstring) \<Rightarrow> (jstring \<times> para list) list"
where
  "rebuildDocx xmlFiles segments m =
     map (\<lambda>(path, allParas).
            let fileSegments = filter (\<lambda>seg. xmlPath seg = path) segments;
                contentParas = filter isContentParagraph allParas
            in if length fileSegments = 0 then (path, contentParas)
               else (path, rebuild_file replaceParagraphText highlightParagraphRed m
                             fileSegments contentParas))
         xmlFiles"

text \<open>
  \<open>rebuildPptx\<close>: a slide is given by its path and, for each shape with a text body, the
  paragraphs of that body.
\<close>

definition rebuildPptx ::
  "(jstring \<times> para list list) list \<Rightarrow> segment list \<Rightarrow> (nat \<rightharpoonup> jstring) \<Rightarrow> (jstring \<times> para list) list"
where
  "rebuildPptx xmlFiles segments m =
     map (\<lambda>(path, shapes).
            let fileSegments = filter (\<lambda>seg. xmlPath seg = path) segments;
                contentParas = concat (map (filter isContentParagraph) shapes)
            in if length fileSegments = 0 then (path, contentParas)
               else (path, rebuild_file replacePptxParagraphText highlightPptxParagraphRed m
                             fileSegments contentParas))
         xmlFiles"

text \<open>A run carries the flag when its run properties hold a highlight of the given value.\<close>

definition flagged :: "string \<Rightarrow> run \<Rightarrow> bool" where
  "flagged red r = (case rPr r of None \<Rightarrow> False | Some ps \<Rightarrow> Highlight red \<in> set ps)"

section \<open>Properties of mapped values\<close>

text \<open>
  A value is clean when it is not empty, holds no line feed (U+000A, the character at
  which \<open>splitIntoParagraphs\<close> splits the lines), and neither starts nor ends with white
  space.
\<close>

definition clean_value :: "jstring \<Rightarrow> bool" where
  "clean_value v \<longleftrightarrow> v \<noteq> [] \<and> 10 \<notin> set v \<and> \<not> is_space (hd v) \<and> \<not> is_space (last v)"

text \<open>
  The same with the specification's words, no newline characters: the line terminators of
  ECMAScript, which are the line feed, the carriage return (U+000D), the line separator
  (U+2028) and the paragraph separator (U+2029).
\<close>

definition is_newline :: "nat \<Rightarrow> bool" where
  "is_newline c \<longleftrightarrow> c = 10 \<or> c = 13 \<or> c = 8232 \<or> c = 8233"

definition spec_clean_value :: "jstring \<Rightarrow> bool" where
  "spec_clean_value v \<longleftrightarrow>
     v \<noteq> [] \<and> \<not> list_ex is_newline v \<and> \<not> is_space (hd v) \<and> \<not> is_space (last v)"

text \<open>
  What the record of given indices stands for: going through the segments with their
  entries, a segment with the entry \<open>Some k\<close> sets the mapping at its id to paragraph \<open>k\<close>.
\<close>

fun replay :: "jstring list \<Rightarrow> (segment \<times> nat option) list \<Rightarrow> (nat \<rightharpoonup> jstring) \<Rightarrow> (nat \<rightharpoonup> jstring)" where
  "replay tp [] m = m"
| "replay tp ((seg, None) # xs) m = replay tp xs m"
| "replay tp ((seg, Some k) # xs) m = replay tp xs (m(seg_id seg \<mapsto> tp ! k))"

text \<open>
  The score of a window candidate as the specification words it: the length-ratio bonus,
  when active, is the ratio itself. It is compared with \<open>totalScore2\<close> of the source.
\<close>

definition spec_totalScore2 :: "jstring \<Rightarrow> jstring \<Rightarrow> nat \<Rightarrow> rat" where
  "spec_totalScore2 normSource normTrans w =
     (let lenRatio = of_nat (min (length normSource) (length normTrans)) /
                     of_nat (max (length normSource) (length normTrans))
      in anchorScore normSource normTrans * (4 / 10) + (1 - (1 / 10) * of_nat w) * (3 / 10) +
         (if lenRatio > 3 / 10 then lenRatio else 0) * (3 / 10))"

section \<open>Invariants of the adaptive matcher\<close>

text \<open>
  During Level 2: the scan pointer stays within the paragraphs, the used indices are the
  recorded ones, they lie below the scan pointer and were recorded in increasing order,
  every mapped text is a translated paragraph, and the counters count the segments handled.
\<close>

definition level2_inv :: "jstring list \<Rightarrow> astate \<Rightarrow> bool" where
  "level2_inv tp st \<longleftrightarrow>
     tIdx st \<le> length tp \<and>
     usedTranslations st = set (somes (given2 st)) \<and>
     (\<forall>k \<in> set (somes (given2 st)). k < tIdx st) \<and>
     sorted_wrt (<) (somes (given2 st)) \<and>
     (\<forall>k v. a_mapping st k = Some v \<longrightarrow> v \<in> set tp) \<and>
     st_matched (a_stats st) + st_unmatched (a_stats st) = int (length (given2 st)) \<and>
     st_unmatched (a_stats st) = int (length (a_unmatched st)) \<and>
     st_matched (a_stats st) = int (length (somes (given2 st))) \<and>
     given3 st = []"

text \<open>
  During Level 3: the unused entries carry different indices, each the index of its
  paragraph, none of them used by Level 2 or given by Level 3 so far; Level 3 gave no index
  twice and none that Level 2 used.
\<close>

definition level3_inv :: "jstring list \<Rightarrow> astate \<Rightarrow> bool" where
  "level3_inv tp st \<longleftrightarrow>
     distinct (map snd (unusedTranslations st)) \<and>
     (\<forall>c \<in> set (unusedTranslations st).
        snd c < length tp \<and> fst c = tp ! snd c \<and> snd c \<notin> usedTranslations st \<and>
        snd c \<notin> set (somes (given3 st))) \<and>
     distinct (somes (given3 st)) \<and>
     (\<forall>k \<in> set (somes (given3 st)). k \<notin> usedTranslations st \<and> k < length tp) \<and>
     (\<forall>k v. a_mapping st k = Some v \<longrightarrow> v \<in> set tp)"

section \<open>The strict matcher: its loops\<close>

lemma fold_sets_other:
  "k \<notin> seg_id ` set (take n segs) \<Longrightarrow> n \<le> length segs \<Longrightarrow>
   fold (\<lambda>i m. m(seg_id (segs ! i) \<mapsto> f i)) [0 ..< n] m k = m k"
proof (induction n)
  case 0
  then show ?case by simp
next
  case (Suc n)
  then have "k \<noteq> seg_id (segs ! n)" and "k \<notin> seg_id ` set (take n segs)"
    by (auto simp: take_Suc_conv_app_nth)
  with Suc show ?case by simp
qed

lemma fold_sets_nth:
  "distinct (map seg_id segs) \<Longrightarrow> n \<le> length segs \<Longrightarrow> i < n \<Longrightarrow>
   fold (\<lambda>i m. m(seg_id (segs ! i) \<mapsto> f i)) [0 ..< n] m (seg_id (segs ! i)) = Some (f i)"
proof (induction n)
  case 0
  then show ?case by simp
next
  case (Suc n)
  show ?case
  proof (cases "i = n")
    case True
    then show ?thesis by simp
  next
    case False
    with Suc.prems have i: "i < n" and n: "n < length segs" by simp_all
    from Suc.prems(1) i n have "seg_id (segs ! i) \<noteq> seg_id (segs ! n)"
      using nth_eq_iff_index_eq [of "map seg_id segs" i n] by simp
    with Suc.IH [OF Suc.prems(1) _ i] n show ?thesis by simp
  qed
qed

lemma fold_sets_last:
  "fold (\<lambda>i m. m(seg_id (segs ! i) \<mapsto> f i)) [0 ..< Suc n] m (seg_id (segs ! n)) = Some (f n)"
  by simp

lemma set_identity_eq:
  "set_identity segs tp = (\<lambda>i m. m(seg_id (segs ! i) \<mapsto> tp ! i))"
  by (rule ext, rule ext) (simp add: set_identity_def)

text \<open>The loop of case 2, component by component.\<close>

lemma partial_fold_mapping:
  "mapping (fold (partial_step segs tp) [0 ..< n] r) =
   fold (\<lambda>i m. m(seg_id (segs ! i) \<mapsto> tp ! i)) [0 ..< min n (length tp)] (mapping r)"
proof (induction n)
  case 0
  then show ?case by simp
next
  case (Suc n)
  then show ?case by (cases "n < length tp") (simp_all add: partial_step_def min_def)
qed

lemma partial_fold_unmatched:
  "unmatched (fold (partial_step segs tp) [0 ..< n] r) =
   unmatched r @ map (\<lambda>i. segs ! i) [length tp ..< n]"
proof (induction n)
  case 0
  then show ?case by simp
next
  case (Suc n)
  then show ?case by (cases "n < length tp") (simp_all add: partial_step_def)
qed

lemma partial_fold_stats:
  "stats (fold (partial_step segs tp) [0 ..< n] r) =
   (stats r)\<lparr>st_matched := st_matched (stats r) + int (min n (length tp)),
             st_unmatched := st_unmatched (stats r) + int (n - length tp)\<rparr>"
proof (induction n)
  case 0
  then show ?case by simp
next
  case (Suc n)
  then show ?case by (cases "n < length tp") (simp_all add: partial_step_def min_def Suc_diff_le)
qed

lemma merge_step_mapping:
  "mapping (merge_step segs tp i r) =
   (mapping r)(seg_id (segs ! i) \<mapsto>
      (if Suc i < length segs then tp ! i else join [32] (drop i tp)))"
proof (cases "Suc i < length segs")
  case True
  then have "int i < int (length segs) - 1" by simp
  with True show ?thesis by (simp add: merge_step_def Let_def)
next
  case False
  then have "\<not> int i < int (length segs) - 1" by simp
  with False show ?thesis by (simp add: merge_step_def Let_def)
qed

lemma merge_fold_mapping:
  "mapping (fold (merge_step segs tp) [0 ..< n] r) =
   fold (\<lambda>i m. m(seg_id (segs ! i) \<mapsto>
           (if Suc i < length segs then tp ! i else join [32] (drop i tp))))
     [0 ..< n] (mapping r)"
proof (induction n)
  case 0
  then show ?case by simp
next
  case (Suc n)
  show ?case
    unfolding upt_Suc_append [OF le0] fold_append comp_def fold_simps merge_step_mapping Suc.IH
    by (rule refl)
qed

lemma merge_fold_unmatched:
  "unmatched (fold (merge_step segs tp) [0 ..< n] r) = unmatched r"
  by (induction n) (simp_all add: merge_step_def Let_def)

lemma merge_fold_stats:
  "stats (fold (merge_step segs tp) [0 ..< n] r) =
   (stats r)\<lparr>st_matched := st_matched (stats r) + int n\<rparr>"
  by (induction n) (simp_all add: merge_step_def Let_def)

section \<open>The strict positional strategy\<close>

lemma map_nth_upt_drop: "n \<le> length xs \<Longrightarrow> map (\<lambda>i. xs ! i) [n ..< length xs] = drop n xs"
  by (rule nth_equalityI) simp_all

text \<open>
  C3. In the strict positional matcher, with \<open>paras\<close> the non-empty trimmed lines of the
  translation: when there are more segments than paragraphs, the segments from position
  \<open>length paras\<close> on are returned unmatched, in order, and (the segment ids being
  different from each other) each segment before that position maps to the paragraph at
  its position while the others have no entry; when there are more paragraphs than
  segments, nothing is unmatched, \<open>fuzzy\<close> is the number of excess paragraphs, the last
  segment maps to the paragraphs from its position on joined by single spaces, and (the
  ids being different) each segment but the last maps to the paragraph at its position.
\<close>

theorem strict_positional_cases:
  "let paras = splitIntoParagraphs tt; r = matchTexts_strict segs tt in
   (length segs > length paras \<longrightarrow>
      unmatched r = drop (length paras) segs \<and>
      (distinct (map seg_id segs) \<longrightarrow>
         (\<forall>i < length paras. mapping r (seg_id (segs ! i)) = Some (paras ! i)) \<and>
         (\<forall>i. length paras \<le> i \<and> i < length segs \<longrightarrow> mapping r (seg_id (segs ! i)) = None))) \<and>
   (length segs < length paras \<longrightarrow>
      unmatched r = [] \<and>
      st_fuzzy (stats r) = int (length paras) - int (length segs) \<and>
      (segs \<noteq> [] \<longrightarrow>
         mapping r (seg_id (last segs)) = Some (join [32] (drop (length segs - 1) paras))) \<and>
      (distinct (map seg_id segs) \<longrightarrow>
         (\<forall>i. Suc i < length segs \<longrightarrow> mapping r (seg_id (segs ! i)) = Some (paras ! i))))"
proof -
  define paras where "paras = splitIntoParagraphs tt"
  define r where "r = matchTexts_strict segs tt"
  have part: "length segs > length paras \<Longrightarrow> r = sequential_partial segs paras"
    by (simp add: r_def paras_def matchTexts_strict_def Let_def)
  have merge: "length segs < length paras \<Longrightarrow> r = sequential_merge segs paras"
    by (simp add: r_def paras_def matchTexts_strict_def Let_def)
  have p1: "unmatched r = drop (length paras) segs" if "length segs > length paras"
    using that by (simp add: part sequential_partial_def partial_fold_unmatched map_nth_upt_drop)
  have p2: "mapping r (seg_id (segs ! i)) = Some (paras ! i)"
    if "length segs > length paras" "distinct (map seg_id segs)" "i < length paras" for i
    using that fold_sets_nth [of segs "length paras" i "\<lambda>i. paras ! i" Map.empty]
    by (simp add: part sequential_partial_def partial_fold_mapping min_def)
  have p3: "mapping r (seg_id (segs ! i)) = None"
    if gt: "length segs > length paras" and d: "distinct (map seg_id segs)"
      and i: "length paras \<le> i" "i < length segs" for i
  proof -
    have "seg_id (segs ! i) \<notin> seg_id ` set (take (length paras) segs)"
    proof
      assume "seg_id (segs ! i) \<in> seg_id ` set (take (length paras) segs)"
      then obtain j where j: "j < length paras" "seg_id (segs ! j) = seg_id (segs ! i)"
        using gt by (auto simp: in_set_conv_nth)
      with d i gt have "j = i"
        using nth_eq_iff_index_eq [of "map seg_id segs" j i] by simp
      with j i show False by simp
    qed
    then show ?thesis
      using gt fold_sets_other [of "seg_id (segs ! i)" "length paras" segs "\<lambda>i. paras ! i" Map.empty]
      by (simp add: part sequential_partial_def partial_fold_mapping min_def)
  qed
  have m1: "unmatched r = []" if "length segs < length paras"
    using that by (simp add: merge sequential_merge_def Let_def merge_fold_unmatched)
  have m2: "st_fuzzy (stats r) = int (length paras) - int (length segs)"
    if "length segs < length paras"
    using that by (simp add: merge sequential_merge_def Let_def)
  have m3: "mapping r (seg_id (last segs)) = Some (join [32] (drop (length segs - 1) paras))"
    if lt: "length segs < length paras" and ne: "segs \<noteq> []"
  proof -
    from ne obtain n where n: "length segs = Suc n" by (cases segs) auto
    with ne have l: "last segs = segs ! n" by (simp add: last_conv_nth)
    show ?thesis
      using lt by (simp add: merge sequential_merge_def Let_def merge_step_mapping n l)
  qed
  have m4: "mapping r (seg_id (segs ! i)) = Some (paras ! i)"
    if "length segs < length paras" "distinct (map seg_id segs)" "Suc i < length segs" for i
    using that
      fold_sets_nth [of segs "length segs" i
        "\<lambda>i. if Suc i < length segs then paras ! i else join [32] (drop i paras)" Map.empty]
    by (simp add: merge sequential_merge_def Let_def merge_fold_mapping)
  show ?thesis
    unfolding Let_def paras_def [symmetric] r_def [symmetric]
    by (intro conjI impI allI) (simp_all add: p1 p2 p3 m1 m2 m3 m4)
qed


theorem strict_positional_cases_witness:
  "(let segs = [\<lparr>seg_id = 0, seg_text = js ''one'', xmlPath = js ''d''\<rparr>,
                \<lparr>seg_id = 1, seg_text = js ''two'', xmlPath = js ''d''\<rparr>,
                \<lparr>seg_id = 2, seg_text = js ''three'', xmlPath = js ''d''\<rparr>];
        r = matchTexts_strict segs (js ''un'' @ [10] @ js ''deux'' @ [10] @ js ''trois'' @ [10]
              @ js ''quatre'' @ [10] @ js ''cinq'')
    in mapping r 0 = Some (js ''un'') \<and> mapping r 1 = Some (js ''deux'') \<and>
       mapping r 2 = Some (js ''trois quatre cinq'') \<and> st_fuzzy (stats r) = 2 \<and>
       unmatched r = []) \<and>
   (let segs = [\<lparr>seg_id = 0, seg_text = js ''one'', xmlPath = js ''d''\<rparr>,
                \<lparr>seg_id = 1, seg_text = js ''two'', xmlPath = js ''d''\<rparr>,
                \<lparr>seg_id = 2, seg_text = js ''three'', xmlPath = js ''d''\<rparr>];
        r = matchTexts_strict segs (js ''un'')
    in mapping r 0 = Some (js ''un'') \<and> mapping r 1 = None \<and> mapping r 2 = None \<and>
       unmatched r = [\<lparr>seg_id = 1, seg_text = js ''two'', xmlPath = js ''d''\<rparr>,
                      \<lparr>seg_id = 2, seg_text = js ''three'', xmlPath = js ''d''\<rparr>])"
proof -
  define segs where "segs = [\<lparr>seg_id = 0, seg_text = js ''one'', xmlPath = js ''d''\<rparr>,
                \<lparr>seg_id = 1, seg_text = js ''two'', xmlPath = js ''d''\<rparr>,
                \<lparr>seg_id = 2, seg_text = js ''three'', xmlPath = js ''d''\<rparr>]"
  define t5 where "t5 = js ''un'' @ [10] @ js ''deux'' @ [10] @ js ''trois'' @ [10]
              @ js ''quatre'' @ [10] @ js ''cinq''"
  have p5: "splitIntoParagraphs t5 = [js ''un'', js ''deux'', js ''trois'', js ''quatre'', js ''cinq'']"
    unfolding t5_def by code_simp
  have p1: "splitIntoParagraphs (js ''un'') = [js ''un'']"
    by code_simp
  have j: "join [32] [js ''trois'', js ''quatre'', js ''cinq''] = js ''trois quatre cinq''"
    by code_simp
  have d: "distinct (map seg_id segs)" and l: "length segs = 3"
    and n: "segs ! 0 = \<lparr>seg_id = 0, seg_text = js ''one'', xmlPath = js ''d''\<rparr>"
       "segs ! 1 = \<lparr>seg_id = 1, seg_text = js ''two'', xmlPath = js ''d''\<rparr>"
       "segs ! 2 = \<lparr>seg_id = 2, seg_text = js ''three'', xmlPath = js ''d''\<rparr>"
       "last segs = \<lparr>seg_id = 2, seg_text = js ''three'', xmlPath = js ''d''\<rparr>"
    by (simp_all add: segs_def)
  note A = strict_positional_cases [where segs = segs and tt = t5, unfolded Let_def p5]
  note B = strict_positional_cases [where segs = segs and tt = "js ''un''", unfolded Let_def p1]
  from A have a: "unmatched (matchTexts_strict segs t5) = []"
      "st_fuzzy (stats (matchTexts_strict segs t5)) = 2"
      "mapping (matchTexts_strict segs t5) (seg_id (last segs)) = Some (js ''trois quatre cinq'')"
      "\<forall>i. Suc i < length segs \<longrightarrow>
         mapping (matchTexts_strict segs t5) (seg_id (segs ! i)) =
         Some ([js ''un'', js ''deux'', js ''trois'', js ''quatre'', js ''cinq''] ! i)"
    using d l j by (simp_all add: segs_def)
  from a(4) [rule_format, of 0] a(4) [rule_format, of 1]
  have a4: "mapping (matchTexts_strict segs t5) 0 = Some (js ''un'')"
      "mapping (matchTexts_strict segs t5) 1 = Some (js ''deux'')"
    using l n by simp_all
  from B have b: "unmatched (matchTexts_strict segs (js ''un'')) = drop 1 segs"
      "\<forall>i<1. mapping (matchTexts_strict segs (js ''un'')) (seg_id (segs ! i)) = Some ([js ''un''] ! i)"
      "\<forall>i. 1 \<le> i \<and> i < length segs \<longrightarrow>
         mapping (matchTexts_strict segs (js ''un'')) (seg_id (segs ! i)) = None"
    using d l by simp_all
  from b(2) [rule_format, of 0] b(3) [rule_format, of 1] b(3) [rule_format, of 2]
  have b4: "mapping (matchTexts_strict segs (js ''un'')) 0 = Some (js ''un'')"
      "mapping (matchTexts_strict segs (js ''un'')) 1 = None"
      "mapping (matchTexts_strict segs (js ''un'')) 2 = None"
    using l n by simp_all
  show ?thesis
    unfolding Let_def segs_def [symmetric] t5_def [symmetric]
    using a(1,2,3) a4 b(1) b4 n by (simp add: segs_def)
qed

section \<open>The adaptive matcher: the Level 2 loop\<close>

lemma fold_invariant:
  "P s \<Longrightarrow> (\<And>x s. x \<in> set xs \<Longrightarrow> P s \<Longrightarrow> P (f x s)) \<Longrightarrow> P (fold f xs s)"
  by (induction xs arbitrary: s) simp_all

text \<open>What the window scan returns: the pair it started with, or a candidate of the window.\<close>

lemma scan_window_result:
  "scan_window ns tp t used ws best = (bm, bs) \<Longrightarrow>
   (bm, bs) = best \<or>
   (\<exists>w \<in> set ws. bm = Some (t + w) \<and> t + w < length tp \<and> t + w \<notin> used \<and>
        bs = totalScore2 ns (normalize_text (tp ! (t + w))) w)"
proof (induction ws arbitrary: best)
  case Nil
  then show ?case by simp
next
  case (Cons w ws)
  show ?case
  proof (cases "t + w \<ge> length tp")
    case True
    with Cons.prems show ?thesis by simp
  next
    case inrange: False
    show ?thesis
    proof (cases "t + w \<in> used")
      case True
      with inrange Cons.prems
      have "scan_window ns tp t used ws best = (bm, bs)" by simp
      from Cons.IH [OF this] show ?thesis by auto
    next
      case False
      define total where "total = totalScore2 ns (normalize_text (tp ! (t + w))) w"
      define best' where "best' = (if total > snd best then (Some (t + w), total) else best)"
      from inrange False Cons.prems
      have "scan_window ns tp t used ws best' = (bm, bs)"
        by (auto simp: Let_def best'_def total_def split: if_splits)
      from Cons.IH [OF this] show ?thesis
        using inrange False by (auto simp: best'_def total_def split: if_splits)
    qed
  qed
qed

lemma scan_window_Some:
  assumes "scan_window ns tp t used ws (None, s0) = (Some k, bs)"
  shows "t \<le> k \<and> k < length tp \<and> k \<notin> used"
  using scan_window_result [OF assms] by auto

text \<open>The two outcomes of the Level 2 loop body.\<close>

lemma level2_step_cases:
  obtains (taken) k fz where "tIdx st \<le> k" "k < length tp" "k \<notin> usedTranslations st"
      "level2_step tp seg st = take_candidate tp seg k fz st"
  | (deferred) "level2_step tp seg st = defer_segment seg st"
proof -
  define res where "res = scan_window (normalize_text (seg_text seg)) tp (tIdx st)
      (usedTranslations st) [0 ..< min 5 (length tp - tIdx st)] (None, 0)"
  have fb: thesis if "level2_step tp seg st = positional_fallback tp seg st"
  proof (cases "tIdx st < length tp \<and> tIdx st \<notin> usedTranslations st")
    case True
    then show ?thesis
      using taken [of "tIdx st" True] that by (simp add: positional_fallback_def)
  next
    case False
    then have "positional_fallback tp seg st = defer_segment seg st"
      by (auto simp: positional_fallback_def)
    with that deferred show ?thesis by simp
  qed
  show thesis
  proof (cases res)
    case (Pair bm bs)
    show ?thesis
    proof (cases bm)
      case None
      with Pair show ?thesis
        by (intro fb) (simp add: level2_step_def Let_def res_def [symmetric])
    next
      case (Some k)
      show ?thesis
      proof (cases "bs > fl (2 / 10)")
        case True
        from Pair Some have "tIdx st \<le> k \<and> k < length tp \<and> k \<notin> usedTranslations st"
          unfolding res_def by (intro scan_window_Some) simp
        moreover from Pair Some True
        have "level2_step tp seg st = take_candidate tp seg k (bs < fl (6 / 10)) st"
          by (simp add: level2_step_def Let_def res_def [symmetric])
        ultimately show ?thesis using taken by blast
      next
        case False
        with Pair Some show ?thesis
          by (intro fb) (simp add: level2_step_def Let_def res_def [symmetric])
      qed
    qed
  qed
qed

lemma somes_append: "somes (xs @ ys) = somes xs @ somes ys"
  by (induction xs rule: somes.induct) simp_all

lemma somes_map_Some: "somes (map Some xs) = xs"
  by (induction xs) simp_all

lemma level2_inv_init:
  "level2_inv tp ((init_astate segs)\<lparr>a_stats := (init_stats segs)\<lparr>st_method := m\<rparr>\<rparr>)"
  by (simp add: level2_inv_def init_astate_def init_stats_def)

lemma level2_inv_take:
  assumes inv: "level2_inv tp st" and k: "tIdx st \<le> k" "k < length tp"
  shows "level2_inv tp (take_candidate tp seg k fz st)"
proof -
  from inv have old: "\<forall>j \<in> set (somes (given2 st)). j < k"
    using k(1) by (auto simp: level2_inv_def)
  have "sorted_wrt (<) (somes (given2 st) @ [k])"
    using inv old by (simp add: level2_inv_def sorted_wrt_append)
  moreover have "\<forall>j \<in> set (somes (given2 st) @ [k]). j < k + 1"
    using old by auto
  moreover have "\<forall>key v. ((a_mapping st)(seg_id seg \<mapsto> tp ! k)) key = Some v \<longrightarrow> v \<in> set tp"
    using inv k(2) by (auto simp: level2_inv_def)
  ultimately show ?thesis
    using inv k(2) by (simp add: level2_inv_def take_candidate_def somes_append)
qed

lemma level2_inv_defer:
  assumes inv: "level2_inv tp st"
  shows "level2_inv tp (defer_segment seg st)"
  using inv by (simp add: level2_inv_def defer_segment_def somes_append)

lemma level2_inv_step:
  assumes "level2_inv tp st"
  shows "level2_inv tp (level2_step tp seg st)"
proof (cases rule: level2_step_cases [of st tp seg])
  case (taken k fz)
  with assms show ?thesis by (simp add: level2_inv_take)
next
  case deferred
  with assms show ?thesis by (simp add: level2_inv_defer)
qed

lemma level2_inv_fold:
  "level2_inv tp st \<Longrightarrow> level2_inv tp (fold (level2_step tp) segs st)"
  by (rule fold_invariant) (simp_all add: level2_inv_step)

text \<open>Fields that Level 2 leaves alone.\<close>

lemma level2_step_const:
  "st_total (a_stats (level2_step tp seg st)) = st_total (a_stats st)"
  "st_method (a_stats (level2_step tp seg st)) = st_method (a_stats st)"
  "length (given2 (level2_step tp seg st)) = Suc (length (given2 st))"
  by (cases rule: level2_step_cases [of st tp seg];
      simp add: take_candidate_def defer_segment_def)+

lemma level2_fold_const:
  "st_total (a_stats (fold (level2_step tp) segs st)) = st_total (a_stats st)"
  "st_method (a_stats (fold (level2_step tp) segs st)) = st_method (a_stats st)"
  "length (given2 (fold (level2_step tp) segs st)) = length segs + length (given2 st)"
  by (induction segs arbitrary: st) (simp_all add: level2_step_const)

section \<open>The adaptive matcher: the Level 3 loop\<close>

lemma scan_unused_result:
  "scan_unused seg cs best = (bm, bs) \<Longrightarrow>
   (bm, bs) = best \<or>
   (\<exists>c \<in> set cs. bm = Some c \<and> bs = totalScore3 seg c \<and> bs > fl (3 / 10))"
proof (induction cs arbitrary: best)
  case Nil
  then show ?case by simp
next
  case (Cons c cs)
  define best' where
    "best' = (if totalScore3 seg c > snd best \<and> totalScore3 seg c > fl (3 / 10)
              then (Some c, totalScore3 seg c) else best)"
  from Cons.prems have "scan_unused seg cs best' = (bm, bs)"
    by (auto simp: Let_def best'_def split: if_splits)
  from Cons.IH [OF this] show ?case
    by (auto simp: best'_def split: if_splits)
qed

lemma level3_step_cases:
  obtains (given) c where "c \<in> set (unusedTranslations st)"
      "level3_step seg st = give_unused seg c st"
  | (kept) "level3_step seg st = keep_unmatched seg st"
proof (cases "scan_unused seg (unusedTranslations st) (None, 0)")
  case (Pair bm bs)
  show ?thesis
  proof (cases bm)
    case None
    with Pair kept show ?thesis
      by (simp add: level3_step_def)
  next
    case (Some c)
    with Pair scan_unused_result [OF Pair] have "c \<in> set (unusedTranslations st)"
      by auto
    with Pair Some given show ?thesis
      by (simp add: level3_step_def)
  qed
qed


lemma distinct_map_remove1:
  assumes "distinct (map f xs)"
  shows "distinct (map f (remove1 x xs))"
proof -
  from assms have "distinct xs" by (simp add: distinct_map)
  then have "remove1 x xs = filter (\<lambda>y. x \<noteq> y) xs"
    by (simp add: distinct_remove1_removeAll removeAll_filter_not_eq)
  with assms show ?thesis by (simp add: distinct_map_filter)
qed

lemma level3_inv_init:
  assumes "level2_inv tp st"
  shows "level3_inv tp (st\<lparr>unusedTranslations :=
            filter (\<lambda>t. snd t \<notin> usedTranslations st) (zip tp [0 ..< length tp]),
          stillUnmatched := []\<rparr>)"
proof -
  have "distinct (map snd (zip tp [0 ..< length tp]))" by simp
  then have "distinct (map snd (filter (\<lambda>t. snd t \<notin> usedTranslations st) (zip tp [0 ..< length tp])))"
    by (rule distinct_map_filter)
  moreover have "snd c < length tp \<and> fst c = tp ! snd c"
    if "c \<in> set (zip tp [0 ..< length tp])" for c
    using that by (auto simp: in_set_zip)
  ultimately show ?thesis
    using assms by (auto simp: level3_inv_def level2_inv_def)
qed

lemma level3_inv_give:
  assumes inv: "level3_inv tp st" and c: "c \<in> set (unusedTranslations st)"
  shows "level3_inv tp (give_unused seg c st)"
proof -
  from inv have d: "distinct (map snd (unusedTranslations st))"
    by (simp add: level3_inv_def)
  then have dl: "distinct (unusedTranslations st)" by (simp add: distinct_map)
  from inv c have cp: "snd c < length tp" "fst c = tp ! snd c" "snd c \<notin> usedTranslations st"
      "snd c \<notin> set (somes (given3 st))"
    by (auto simp: level3_inv_def)
  have other: "snd c' \<noteq> snd c" if "c' \<in> set (remove1 c (unusedTranslations st))" for c'
  proof -
    from that dl have "c' \<in> set (unusedTranslations st)" "c' \<noteq> c" by auto
    with d c show ?thesis by (auto simp: distinct_map inj_on_def)
  qed
  have sub: "c' \<in> set (unusedTranslations st)" if "c' \<in> set (remove1 c (unusedTranslations st))" for c'
    using that dl by simp
  have "fst c \<in> set tp" using cp by simp
  then have vals: "\<forall>k v. ((a_mapping st)(seg_id seg \<mapsto> fst c)) k = Some v \<longrightarrow> v \<in> set tp"
    using inv by (auto simp: level3_inv_def)
  show ?thesis
    unfolding level3_inv_def
  proof (intro conjI)
    show "distinct (map snd (unusedTranslations (give_unused seg c st)))"
      using d by (simp add: give_unused_def distinct_map_remove1)
    show "\<forall>c' \<in> set (unusedTranslations (give_unused seg c st)).
        snd c' < length tp \<and> fst c' = tp ! snd c' \<and> snd c' \<notin> usedTranslations (give_unused seg c st) \<and>
        snd c' \<notin> set (somes (given3 (give_unused seg c st)))"
      using inv other sub by (auto simp: give_unused_def level3_inv_def somes_append)
    show "distinct (somes (given3 (give_unused seg c st)))"
      using inv cp by (simp add: give_unused_def level3_inv_def somes_append)
    show "\<forall>k \<in> set (somes (given3 (give_unused seg c st))).
        k \<notin> usedTranslations (give_unused seg c st) \<and> k < length tp"
      using inv cp by (auto simp: give_unused_def level3_inv_def somes_append)
    show "\<forall>k v. a_mapping (give_unused seg c st) k = Some v \<longrightarrow> v \<in> set tp"
      using vals by (simp add: give_unused_def)
  qed
qed

lemma level3_inv_keep:
  "level3_inv tp st \<Longrightarrow> level3_inv tp (keep_unmatched seg st)"
  by (simp add: level3_inv_def keep_unmatched_def somes_append)

lemma level3_inv_step:
  assumes "level3_inv tp st"
  shows "level3_inv tp (level3_step seg st)"
proof (cases rule: level3_step_cases [of st seg])
  case (given c)
  with assms show ?thesis by (simp add: level3_inv_give)
next
  case kept
  with assms show ?thesis by (simp add: level3_inv_keep)
qed

lemma level3_inv_fold:
  "level3_inv tp st \<Longrightarrow> level3_inv tp (fold level3_step segs st)"
  by (rule fold_invariant) (simp_all add: level3_inv_step)

text \<open>What Level 3 leaves alone, and the sum of its two counters.\<close>

lemma level3_step_const:
  "st_total (a_stats (level3_step seg st)) = st_total (a_stats st)"
  "st_method (a_stats (level3_step seg st)) = st_method (a_stats st)"
  "st_matched (a_stats (level3_step seg st)) + st_unmatched (a_stats (level3_step seg st)) =
   st_matched (a_stats st) + st_unmatched (a_stats st)"
  "given2 (level3_step seg st) = given2 st"
  "usedTranslations (level3_step seg st) = usedTranslations st"
  by (cases rule: level3_step_cases [of st seg];
      simp add: give_unused_def keep_unmatched_def)+

lemma level3_fold_const:
  "st_total (a_stats (fold level3_step segs st)) = st_total (a_stats st)"
  "st_method (a_stats (fold level3_step segs st)) = st_method (a_stats st)"
  "st_matched (a_stats (fold level3_step segs st)) + st_unmatched (a_stats (fold level3_step segs st)) =
   st_matched (a_stats st) + st_unmatched (a_stats st)"
  "given2 (fold level3_step segs st) = given2 st"
  "usedTranslations (fold level3_step segs st) = usedTranslations st"
  by (induction segs arbitrary: st) (simp_all add: level3_step_const)

section \<open>The adaptive matcher: a whole run\<close>

lemma level2_facts:
  "level2_inv tp (level2 segs tp)"
  "st_total (a_stats (level2 segs tp)) = int (length segs)"
  "st_method (a_stats (level2 segs tp)) = ''sequential-flex''"
  "length (given2 (level2 segs tp)) = length segs"
  "unusedTranslations (level2 segs tp) = []"
proof -
  show "level2_inv tp (level2 segs tp)"
    unfolding level2_def by (intro level2_inv_fold level2_inv_init)
  show "st_total (a_stats (level2 segs tp)) = int (length segs)"
    "st_method (a_stats (level2 segs tp)) = ''sequential-flex''"
    "length (given2 (level2 segs tp)) = length segs"
    by (simp_all add: level2_def level2_fold_const init_stats_def init_astate_def)
  have "unusedTranslations (fold (level2_step tp) xs st) = unusedTranslations st" for xs st
  proof (induction xs arbitrary: st)
    case Nil
    show ?case by simp
  next
    case (Cons x xs)
    have "unusedTranslations (level2_step tp x st) = unusedTranslations st"
      by (cases rule: level2_step_cases [of st tp x])
         (simp_all add: take_candidate_def defer_segment_def)
    with Cons show ?case by simp
  qed
  then show "unusedTranslations (level2 segs tp) = []"
    by (simp add: level2_def init_astate_def)
qed

text \<open>Level 3 as a whole, started in a state that Level 2 can leave.\<close>

lemma level3_facts:
  assumes inv: "level2_inv tp st" and pool: "unusedTranslations st = []"
  shows "level3_inv tp (level3 tp st)"
    and "given2 (level3 tp st) = given2 st"
    and "usedTranslations (level3 tp st) = usedTranslations st"
    and "st_total (a_stats (level3 tp st)) = st_total (a_stats st)"
    and "st_method (a_stats (level3 tp st)) = st_method (a_stats st)"
    and "st_matched (a_stats (level3 tp st)) + st_unmatched (a_stats (level3 tp st)) =
         st_matched (a_stats st) + st_unmatched (a_stats st)"
proof -
  define st0 where "st0 = st\<lparr>unusedTranslations :=
      filter (\<lambda>t. snd t \<notin> usedTranslations st) (zip tp [0 ..< length tp]), stillUnmatched := []\<rparr>"
  define st' where "st' = fold level3_step (a_unmatched st) st0"
  have l3: "level3 tp st = (if length (a_unmatched st) > 0 then st'\<lparr>a_unmatched := stillUnmatched st'\<rparr> else st)"
    by (simp add: level3_def Let_def st'_def st0_def)
  have "level3_inv tp st0"
    unfolding st0_def using inv by (rule level3_inv_init)
  then have i': "level3_inv tp st'"
    unfolding st'_def by (rule level3_inv_fold)
  have i0: "level3_inv tp st"
    using inv pool by (simp add: level3_inv_def level2_inv_def)
  show "level3_inv tp (level3 tp st)"
    using i' i0 by (simp add: l3 level3_inv_def)
  show "given2 (level3 tp st) = given2 st"
    "usedTranslations (level3 tp st) = usedTranslations st"
    "st_total (a_stats (level3 tp st)) = st_total (a_stats st)"
    "st_method (a_stats (level3 tp st)) = st_method (a_stats st)"
    "st_matched (a_stats (level3 tp st)) + st_unmatched (a_stats (level3 tp st)) =
         st_matched (a_stats st) + st_unmatched (a_stats st)"
    by (simp_all add: l3 st'_def level3_fold_const) (simp_all add: st0_def)
qed

lemma fold_sets_values:
  "fold (\<lambda>i m. m(key i \<mapsto> f i)) [0 ..< n] m k = Some v \<Longrightarrow> m k = Some v \<or> (\<exists>i < n. v = f i)"
proof (induction n)
  case 0
  then show ?case by simp
next
  case (Suc n)
  then show ?case by (cases "k = key n") (auto simp: less_Suc_eq)
qed

lemma structure_1to1_values:
  assumes "length segs = length tp" "mapping (structure_1to1 segs tp) k = Some v"
  shows "v \<in> set tp"
  using assms fold_sets_values [of "\<lambda>i. seg_id (segs ! i)" "\<lambda>i. tp ! i" "length segs" Map.empty k v]
  by (auto simp: structure_1to1_def set_identity_eq)

text \<open>The facts about a whole run of the adaptive matcher that the claims rest on.\<close>

lemma adaptive_run_tier1:
  assumes "length segs = length (splitIntoParagraphs tt)"
  shows "adaptive_run segs tt =
     (init_astate segs)
       \<lparr>a_mapping := mapping (structure_1to1 segs (splitIntoParagraphs tt)),
        a_stats := stats (structure_1to1 segs (splitIntoParagraphs tt)),
        given2 := map Some [0 ..< length segs]\<rparr>"
  using assms by (simp add: adaptive_run_def Let_def)

lemma adaptive_run_else:
  assumes "length segs \<noteq> length (splitIntoParagraphs tt)"
  shows "adaptive_run segs tt =
     level3 (splitIntoParagraphs tt) (level2 segs (splitIntoParagraphs tt))"
  using assms by (simp add: adaptive_run_def Let_def)

lemma adaptive_run_facts:
  fixes segs tt
  defines "tp \<equiv> splitIntoParagraphs tt" and "st \<equiv> adaptive_run segs tt"
  shows "sorted_wrt (<) (somes (given2 st))"
    and "distinct (somes (given2 st) @ somes (given3 st))"
    and "\<forall>k \<in> set (somes (given2 st) @ somes (given3 st)). k < length tp"
    and "\<forall>k v. a_mapping st k = Some v \<longrightarrow> v \<in> set tp"
    and "st_matched (a_stats st) + st_unmatched (a_stats st) = st_total (a_stats st)"
    and "st_total (a_stats st) = int (length segs)"
proof -
  have all: "sorted_wrt (<) (somes (given2 st)) \<and>
    distinct (somes (given2 st) @ somes (given3 st)) \<and>
    (\<forall>k \<in> set (somes (given2 st) @ somes (given3 st)). k < length tp) \<and>
    (\<forall>k v. a_mapping st k = Some v \<longrightarrow> v \<in> set tp) \<and>
    st_matched (a_stats st) + st_unmatched (a_stats st) = st_total (a_stats st) \<and>
    st_total (a_stats st) = int (length segs)"
  proof (cases "length segs = length tp")
    case True
    then have st: "st = (init_astate segs)
       \<lparr>a_mapping := mapping (structure_1to1 segs tp),
        a_stats := stats (structure_1to1 segs tp),
        given2 := map Some [0 ..< length segs]\<rparr>"
      unfolding st_def tp_def by (rule adaptive_run_tier1)
    have "\<forall>k v. mapping (structure_1to1 segs tp) k = Some v \<longrightarrow> v \<in> set tp"
      using True structure_1to1_values by blast
    then show ?thesis
      using True
      by (simp add: st somes_map_Some init_astate_def structure_1to1_def init_stats_def)
  next
    case False
    define st2 where "st2 = level2 segs tp"
    from False have st: "st = level3 tp st2"
      unfolding st_def tp_def st2_def by (rule adaptive_run_else)
    note f2 = level2_facts [where tp = tp and segs = segs, folded st2_def]
    note f3 = level3_facts [OF f2(1) f2(5), folded st]
    from f2(1) have s2: "sorted_wrt (<) (somes (given2 st2))" "usedTranslations st2 = set (somes (given2 st2))"
      "\<forall>k \<in> set (somes (given2 st2)). k < tIdx st2" "tIdx st2 \<le> length tp"
      "st_matched (a_stats st2) + st_unmatched (a_stats st2) = int (length (given2 st2))"
      by (simp_all add: level2_inv_def)
    from f3(1) have s3: "distinct (somes (given3 st))"
      "\<forall>k \<in> set (somes (given3 st)). k \<notin> usedTranslations st \<and> k < length tp"
      "\<forall>k v. a_mapping st k = Some v \<longrightarrow> v \<in> set tp"
      by (simp_all add: level3_inv_def)
    have d2: "distinct (somes (given2 st2))"
      using s2(1) by (simp add: strict_sorted_iff)
    have "distinct (somes (given2 st) @ somes (given3 st))"
      using d2 s3(1) s3(2) s2(2) by (auto simp: f3(2) f3(3))
    moreover have "\<forall>k \<in> set (somes (given2 st) @ somes (given3 st)). k < length tp"
      using s2(3,4) s3(2) by (fastforce simp: f3(2))
    ultimately show ?thesis
      using s2(1) s3(3) s2(5) f2(2,4) by (simp add: f3)
  qed
  then show "sorted_wrt (<) (somes (given2 st))"
    and "distinct (somes (given2 st) @ somes (given3 st))"
    and "\<forall>k \<in> set (somes (given2 st) @ somes (given3 st)). k < length tp"
    and "\<forall>k v. a_mapping st k = Some v \<longrightarrow> v \<in> set tp"
    and "st_matched (a_stats st) + st_unmatched (a_stats st) = st_total (a_stats st)"
    and "st_total (a_stats st) = int (length segs)"
    by blast+
qed

section \<open>Level 1: equal counts\<close>

lemma strict_tier1:
  "length segs = length (splitIntoParagraphs tt) \<Longrightarrow>
   matchTexts_strict segs tt = structure_1to1 segs (splitIntoParagraphs tt)"
  by (simp add: matchTexts_strict_def Let_def)

lemma adaptive_tier1:
  "length segs = length (splitIntoParagraphs tt) \<Longrightarrow>
   matchTexts_adaptive segs tt = structure_1to1 segs (splitIntoParagraphs tt)"
  by (simp add: matchTexts_adaptive_def Let_def adaptive_run_tier1 init_astate_def
      structure_1to1_def)

lemma structure_1to1_nth:
  "distinct (map seg_id segs) \<Longrightarrow> i < length segs \<Longrightarrow>
   mapping (structure_1to1 segs tp) (seg_id (segs ! i)) = Some (tp ! i)"
  using fold_sets_nth [of segs "length segs" i "\<lambda>i. tp ! i" Map.empty]
  by (simp add: structure_1to1_def set_identity_eq)

lemma fold_sets_dom:
  "n \<le> length segs \<Longrightarrow>
   dom (fold (\<lambda>i m. m(seg_id (segs ! i) \<mapsto> f i)) [0 ..< n] m) = dom m \<union> seg_id ` set (take n segs)"
  by (induction n) (auto simp: take_Suc_conv_app_nth)

lemma structure_1to1_dom:
  "dom (mapping (structure_1to1 segs tp)) = seg_id ` set segs"
  using fold_sets_dom [of "length segs" segs "\<lambda>i. tp ! i" Map.empty]
  by (simp add: structure_1to1_def set_identity_eq)

section \<open>The record of given indices and the mapping\<close>

text \<open>
  The two recorded lists say what the loops did: the mapping after Level 2 is the replay
  of the Level 2 record over the segments, the segments left unmatched are those with the
  entry \<open>None\<close>, and the mapping after Level 3 is the replay of the Level 3 record over those
  segments.
\<close>

lemma replay_Cons:
  "replay tp ((seg, g) # xs) m =
   replay tp xs (case g of None \<Rightarrow> m | Some k \<Rightarrow> m(seg_id seg \<mapsto> tp ! k))"
  by (cases g) simp_all

lemma level2_fold_replay:
  "\<exists>gs. length gs = length segs \<and>
     given2 (fold (level2_step tp) segs st) = given2 st @ gs \<and>
     a_mapping (fold (level2_step tp) segs st) = replay tp (zip segs gs) (a_mapping st) \<and>
     a_unmatched (fold (level2_step tp) segs st) =
       a_unmatched st @ map fst (filter (\<lambda>x. snd x = None) (zip segs gs))"
proof (induction segs arbitrary: st)
  case Nil
  show ?case by simp
next
  case (Cons seg segs)
  define st1 where "st1 = level2_step tp seg st"
  obtain g where g: "given2 st1 = given2 st @ [g]"
      "a_mapping st1 = replay tp [(seg, g)] (a_mapping st)"
      "a_unmatched st1 = a_unmatched st @ map fst (filter (\<lambda>x. snd x = None) [(seg, g)])"
  proof (cases rule: level2_step_cases [of st tp seg])
    case (taken k fz)
    then show ?thesis
      using that [of "Some k"] by (simp add: st1_def take_candidate_def)
  next
    case deferred
    then show ?thesis
      using that [of None] by (simp add: st1_def defer_segment_def)
  qed
  from Cons.IH [of st1] obtain gs where gs: "length gs = length segs"
      "given2 (fold (level2_step tp) segs st1) = given2 st1 @ gs"
      "a_mapping (fold (level2_step tp) segs st1) = replay tp (zip segs gs) (a_mapping st1)"
      "a_unmatched (fold (level2_step tp) segs st1) =
        a_unmatched st1 @ map fst (filter (\<lambda>x. snd x = None) (zip segs gs))"
    by blast
  have "length (g # gs) = length (seg # segs) \<and>
     given2 (fold (level2_step tp) (seg # segs) st) = given2 st @ (g # gs) \<and>
     a_mapping (fold (level2_step tp) (seg # segs) st) =
       replay tp (zip (seg # segs) (g # gs)) (a_mapping st) \<and>
     a_unmatched (fold (level2_step tp) (seg # segs) st) =
       a_unmatched st @ map fst (filter (\<lambda>x. snd x = None) (zip (seg # segs) (g # gs)))"
    using g gs by (cases g) (simp_all add: st1_def [symmetric])
  then show ?case by blast
qed

lemma level3_fold_replay:
  assumes "level3_inv tp st"
  shows "\<exists>gs. length gs = length segs \<and>
     given3 (fold level3_step segs st) = given3 st @ gs \<and>
     a_mapping (fold level3_step segs st) = replay tp (zip segs gs) (a_mapping st) \<and>
     stillUnmatched (fold level3_step segs st) =
       stillUnmatched st @ map fst (filter (\<lambda>x. snd x = None) (zip segs gs))"
  using assms
proof (induction segs arbitrary: st)
  case Nil
  show ?case by simp
next
  case (Cons seg segs)
  define st1 where "st1 = level3_step seg st"
  have inv1: "level3_inv tp st1"
    unfolding st1_def using Cons.prems by (rule level3_inv_step)
  obtain g where g: "given3 st1 = given3 st @ [g]"
      "a_mapping st1 = replay tp [(seg, g)] (a_mapping st)"
      "stillUnmatched st1 = stillUnmatched st @ map fst (filter (\<lambda>x. snd x = None) [(seg, g)])"
  proof (cases rule: level3_step_cases [of st seg])
    case (given c)
    from Cons.prems given(1) have "fst c = tp ! snd c" by (auto simp: level3_inv_def)
    with given(2) show ?thesis
      using that [of "Some (snd c)"] by (simp add: st1_def give_unused_def)
  next
    case kept
    then show ?thesis
      using that [of None] by (simp add: st1_def keep_unmatched_def)
  qed
  from Cons.IH [OF inv1] obtain gs where gs: "length gs = length segs"
      "given3 (fold level3_step segs st1) = given3 st1 @ gs"
      "a_mapping (fold level3_step segs st1) = replay tp (zip segs gs) (a_mapping st1)"
      "stillUnmatched (fold level3_step segs st1) =
        stillUnmatched st1 @ map fst (filter (\<lambda>x. snd x = None) (zip segs gs))"
    by blast
  have "length (g # gs) = length (seg # segs) \<and>
     given3 (fold level3_step (seg # segs) st) = given3 st @ (g # gs) \<and>
     a_mapping (fold level3_step (seg # segs) st) =
       replay tp (zip (seg # segs) (g # gs)) (a_mapping st) \<and>
     stillUnmatched (fold level3_step (seg # segs) st) =
       stillUnmatched st @ map fst (filter (\<lambda>x. snd x = None) (zip (seg # segs) (g # gs)))"
    using g gs by (cases g) (simp_all add: st1_def [symmetric])
  then show ?case by blast
qed

text \<open>A replay does not touch the ids of other segments.\<close>

lemma replay_other:
  "key \<notin> seg_id ` fst ` set xs \<Longrightarrow> replay tp xs m key = m key"
proof (induction xs arbitrary: m)
  case Nil
  show ?case by simp
next
  case (Cons x xs)
  obtain seg g where x: "x = (seg, g)" by (cases x)
  from Cons.prems x have ne: "key \<noteq> seg_id seg" and rest: "key \<notin> seg_id ` fst ` set xs"
    by auto
  show ?case
    unfolding x replay_Cons Cons.IH [OF rest] using ne by (cases g) simp_all
qed

lemma replay_upd_commute:
  "key \<notin> seg_id ` fst ` set xs \<Longrightarrow> replay tp xs (m(key \<mapsto> v)) = (replay tp xs m)(key \<mapsto> v)"
proof (induction xs arbitrary: m)
  case Nil
  show ?case by simp
next
  case (Cons x xs)
  obtain seg g where x: "x = (seg, g)" by (cases x)
  from Cons.prems x have ne: "key \<noteq> seg_id seg" and rest: "key \<notin> seg_id ` fst ` set xs"
    by auto
  show ?case
  proof (cases g)
    case None
    with Cons.IH [OF rest] show ?thesis by (simp add: x)
  next
    case (Some k)
    have "m(key \<mapsto> v, seg_id seg \<mapsto> tp ! k) = m(seg_id seg \<mapsto> tp ! k, key \<mapsto> v)"
      using ne by (rule fun_upd_twist)
    then have "replay tp (x # xs) (m(key \<mapsto> v)) =
        replay tp xs (m(seg_id seg \<mapsto> tp ! k, key \<mapsto> v))"
      by (simp only: x Some replay.simps)
    also have "\<dots> = (replay tp xs (m(seg_id seg \<mapsto> tp ! k)))(key \<mapsto> v)"
      by (rule Cons.IH [OF rest])
    also have "\<dots> = (replay tp (x # xs) m)(key \<mapsto> v)"
      by (simp only: x Some replay.simps)
    finally show ?thesis .
  qed
qed

text \<open>
  With segment ids that differ, replaying Level 2 and then Level 3 over the segments that
  Level 2 left is the replay of the consumed indices over all segments.
\<close>

lemma replay_consumed:
  assumes "length segs = length g2" "distinct (map seg_id segs)"
  shows "replay tp (zip (map fst (filter (\<lambda>x. snd x = None) (zip segs g2))) g3)
           (replay tp (zip segs g2) m) =
         replay tp (zip segs (consumed g2 g3)) m"
  using assms
proof (induction segs g2 arbitrary: g3 m rule: list_induct2)
  case Nil
  show ?case by simp
next
  case (Cons seg segs g g2)
  then have d: "distinct (map seg_id segs)" and fresh: "seg_id seg \<notin> seg_id ` set segs"
    by auto
  define rest where "rest = map fst (filter (\<lambda>x. snd x = None) (zip segs g2))"
  note IH = Cons.IH [OF d, folded rest_def]
  show ?case
  proof (cases g)
    case (Some k)
    have l: "map fst (filter (\<lambda>x. snd x = None) (zip (seg # segs) (g # g2))) = rest"
      by (simp add: Some rest_def)
    have "replay tp (zip rest g3) (replay tp (zip (seg # segs) (g # g2)) m) =
        replay tp (zip rest g3) (replay tp (zip segs g2) (m(seg_id seg \<mapsto> tp ! k)))"
      by (simp only: Some zip_Cons_Cons replay.simps)
    also have "\<dots> = replay tp (zip segs (consumed g2 g3)) (m(seg_id seg \<mapsto> tp ! k))"
      by (rule IH)
    also have "\<dots> = replay tp (zip (seg # segs) (consumed (g # g2) g3)) m"
      by (simp only: Some consumed.simps zip_Cons_Cons replay.simps)
    finally show ?thesis unfolding l .
  next
    case None
    have l: "map fst (filter (\<lambda>x. snd x = None) (zip (seg # segs) (g # g2))) = seg # rest"
      by (simp add: None rest_def)
    have m2: "replay tp (zip (seg # segs) (g # g2)) m = replay tp (zip segs g2) m"
      by (simp only: None zip_Cons_Cons replay.simps)
    show ?thesis
    proof (cases g3)
      case Nil
      have "replay tp (zip (seg # rest) g3) (replay tp (zip segs g2) m) =
          replay tp (zip rest []) (replay tp (zip segs g2) m)"
        by (simp add: Nil)
      also have "\<dots> = replay tp (zip segs (consumed g2 [])) m"
        by (rule IH)
      also have "\<dots> = replay tp (zip (seg # segs) (consumed (g # g2) g3)) m"
        by (simp only: None Nil consumed.simps zip_Cons_Cons replay.simps)
      finally show ?thesis unfolding l m2 .
    next
      case g3: (Cons x g3')
      show ?thesis
      proof (cases x)
        case x: None
        have "replay tp (zip (seg # rest) g3) (replay tp (zip segs g2) m) =
            replay tp (zip rest g3') (replay tp (zip segs g2) m)"
          by (simp only: g3 x zip_Cons_Cons replay.simps)
        also have "\<dots> = replay tp (zip segs (consumed g2 g3')) m"
          by (rule IH)
        also have "\<dots> = replay tp (zip (seg # segs) (consumed (g # g2) g3)) m"
          by (simp only: None g3 x consumed.simps zip_Cons_Cons replay.simps)
        finally show ?thesis unfolding l m2 .
      next
        case x: (Some k)
        have "seg_id seg \<notin> seg_id ` fst ` set (zip segs g2)"
        proof
          assume "seg_id seg \<in> seg_id ` fst ` set (zip segs g2)"
          then obtain a b where ab: "(a, b) \<in> set (zip segs g2)" "seg_id seg = seg_id a"
            by auto
          from ab(1) have "a \<in> set segs" by (rule set_zip_leftD)
          then have "seg_id a \<in> seg_id ` set segs" by (rule imageI)
          with ab(2) fresh show False by simp
        qed
        then have comm: "(replay tp (zip segs g2) m)(seg_id seg \<mapsto> tp ! k) =
            replay tp (zip segs g2) (m(seg_id seg \<mapsto> tp ! k))"
          by (rule replay_upd_commute [symmetric])
        have "replay tp (zip (seg # rest) g3) (replay tp (zip segs g2) m) =
            replay tp (zip rest g3') ((replay tp (zip segs g2) m)(seg_id seg \<mapsto> tp ! k))"
          by (simp only: g3 x zip_Cons_Cons replay.simps)
        also have "\<dots> = replay tp (zip rest g3') (replay tp (zip segs g2) (m(seg_id seg \<mapsto> tp ! k)))"
          by (simp only: comm)
        also have "\<dots> = replay tp (zip segs (consumed g2 g3')) (m(seg_id seg \<mapsto> tp ! k))"
          by (rule IH)
        also have "\<dots> = replay tp (zip (seg # segs) (consumed (g # g2) g3)) m"
          by (simp only: None g3 x consumed.simps zip_Cons_Cons replay.simps)
        finally show ?thesis unfolding l m2 .
      qed
    qed
  qed
qed

lemma replay_nth:
  assumes "length segs = length gs" "distinct (map seg_id segs)" "p < length segs"
  shows "replay tp (zip segs gs) m (seg_id (segs ! p)) =
         (case gs ! p of None \<Rightarrow> m (seg_id (segs ! p)) | Some k \<Rightarrow> Some (tp ! k))"
  using assms
proof (induction segs gs arbitrary: p m rule: list_induct2)
  case Nil
  then show ?case by simp
next
  case (Cons seg segs g gs)
  then have d: "distinct (map seg_id segs)" and fresh: "seg_id seg \<notin> seg_id ` set segs"
    by auto
  have fz: "seg_id seg \<notin> seg_id ` fst ` set (zip segs gs)"
  proof
    assume "seg_id seg \<in> seg_id ` fst ` set (zip segs gs)"
    then obtain a b where ab: "(a, b) \<in> set (zip segs gs)" "seg_id seg = seg_id a"
      by auto
    from ab(1) have "a \<in> set segs" by (rule set_zip_leftD)
    then have "seg_id a \<in> seg_id ` set segs" by (rule imageI)
    with ab(2) fresh show False by simp
  qed
  define m' where "m' = (case g of None \<Rightarrow> m | Some k \<Rightarrow> m(seg_id seg \<mapsto> tp ! k))"
  have step: "replay tp (zip (seg # segs) (g # gs)) m = replay tp (zip segs gs) m'"
    by (simp add: replay_Cons m'_def)
  show ?case
  proof (cases p)
    case 0
    have "replay tp (zip segs gs) m' (seg_id seg) = m' (seg_id seg)"
      using fz by (rule replay_other)
    with 0 show ?thesis
      unfolding step by (cases g) (simp_all add: m'_def)
  next
    case (Suc q)
    with Cons.prems have q: "q < length segs" by simp
    then have "seg_id (segs ! q) \<in> seg_id ` set segs" by simp
    with fresh have ne: "seg_id (segs ! q) \<noteq> seg_id seg" by auto
    from Cons.IH [OF d q, of m']
    have "replay tp (zip segs gs) m' (seg_id (segs ! q)) =
         (case gs ! q of None \<Rightarrow> m' (seg_id (segs ! q)) | Some k \<Rightarrow> Some (tp ! k))" .
    moreover have "m' (seg_id (segs ! q)) = m (seg_id (segs ! q))"
      using ne by (cases g) (simp_all add: m'_def)
    ultimately show ?thesis
      unfolding step using Suc by (simp split: option.splits)
  qed
qed


lemma length_consumed: "length (consumed g2 g3) = length g2"
  by (induction g2 g3 rule: consumed.induct) simp_all

lemma consumed_no_level3: "consumed (map Some ks) g3 = map Some ks"
  by (induction ks) simp_all

lemma adaptive_run_replay:
  assumes "length segs \<noteq> length (splitIntoParagraphs tt)"
  defines "tp \<equiv> splitIntoParagraphs tt" and "st \<equiv> adaptive_run segs tt"
  shows "length (given2 st) = length segs"
    and "a_mapping st =
      replay tp (zip (map fst (filter (\<lambda>x. snd x = None) (zip segs (given2 st)))) (given3 st))
        (replay tp (zip segs (given2 st)) Map.empty)"
proof -
  define st2 where "st2 = level2 segs tp"
  from assms(1) have st: "st = level3 tp st2"
    unfolding st_def tp_def st2_def by (rule adaptive_run_else)
  note f2 = level2_facts [where tp = tp and segs = segs, folded st2_def]
  note f3 = level3_facts [OF f2(1) f2(5), folded st]
  from f2(1) have g3: "given3 st2 = []" by (simp add: level2_inv_def)
  obtain gs where gs: "length gs = length segs" "given2 st2 = gs"
      "a_mapping st2 = replay tp (zip segs gs) Map.empty"
      "a_unmatched st2 = map fst (filter (\<lambda>x. snd x = None) (zip segs gs))"
    using level2_fold_replay [of segs tp "(init_astate segs)
          \<lparr>a_stats := (init_stats segs)\<lparr>st_method := ''sequential-flex''\<rparr>\<rparr>"]
    by (auto simp: st2_def level2_def init_astate_def)
  show "length (given2 st) = length segs"
    using gs by (simp add: f3)
  show "a_mapping st =
      replay tp (zip (map fst (filter (\<lambda>x. snd x = None) (zip segs (given2 st)))) (given3 st))
        (replay tp (zip segs (given2 st)) Map.empty)"
  proof (cases "length (a_unmatched st2) > 0")
    case False
    then have "st = st2" by (simp add: st level3_def)
    with False gs g3 show ?thesis by simp
  next
    case True
    define st0 where "st0 = st2\<lparr>unusedTranslations :=
        filter (\<lambda>t. snd t \<notin> usedTranslations st2) (zip tp [0 ..< length tp]),
        stillUnmatched := []\<rparr>"
    define st' where "st' = fold level3_step (a_unmatched st2) st0"
    from True have l3: "st = st'\<lparr>a_unmatched := stillUnmatched st'\<rparr>"
      by (simp add: st level3_def Let_def st'_def st0_def)
    have "level3_inv tp st0"
      unfolding st0_def using f2(1) by (rule level3_inv_init)
    from level3_fold_replay [OF this, of "a_unmatched st2"]
    obtain gs3 where gs3: "given3 st' = given3 st0 @ gs3"
        "a_mapping st' = replay tp (zip (a_unmatched st2) gs3) (a_mapping st0)"
      unfolding st'_def by blast
    have "given3 st = gs3" "a_mapping st = replay tp (zip (a_unmatched st2) gs3) (a_mapping st2)"
      using gs3 g3 by (simp_all add: l3 st0_def)
    with gs show ?thesis by (simp add: f3)
  qed
qed

text \<open>
  The consumed indices are what the mapping holds: with segment ids that differ, the
  list has one entry for each segment, and the mapping at the id of the segment at a
  position is the paragraph with the index consumed for that position, if there is one,
  and has no entry otherwise.
\<close>

lemma consumed_indices_mapping:
  assumes d: "distinct (map seg_id segs)" and p: "p < length segs"
  shows "length (consumed_indices segs tt) = length segs"
    and "mapping (matchTexts_adaptive segs tt) (seg_id (segs ! p)) =
         map_option (\<lambda>k. splitIntoParagraphs tt ! k) (consumed_indices segs tt ! p)"
proof -
  define tp where "tp = splitIntoParagraphs tt"
  have "length (consumed_indices segs tt) = length segs \<and>
    mapping (matchTexts_adaptive segs tt) (seg_id (segs ! p)) =
         map_option (\<lambda>k. tp ! k) (consumed_indices segs tt ! p)"
  proof (cases "length segs = length tp")
    case True
    then have t1: "length segs = length (splitIntoParagraphs tt)" by (simp add: tp_def)
    have c: "consumed_indices segs tt = map Some [0 ..< length segs]"
      by (simp add: consumed_indices_def Let_def adaptive_run_tier1 [OF t1] init_astate_def
          consumed_no_level3)
    show ?thesis
      using p structure_1to1_nth [OF d p, of tp]
      by (simp add: c adaptive_tier1 [OF t1] tp_def)
  next
    case False
    then have ne: "length segs \<noteq> length (splitIntoParagraphs tt)" by (simp add: tp_def)
    define st where "st = adaptive_run segs tt"
    note R = adaptive_run_replay [OF ne, folded tp_def st_def]
    have c: "consumed_indices segs tt = consumed (given2 st) (given3 st)"
      by (simp add: consumed_indices_def Let_def st_def)
    have len: "length segs = length (consumed (given2 st) (given3 st))"
      by (simp add: length_consumed R(1))
    have "a_mapping st = replay tp (zip segs (consumed (given2 st) (given3 st))) Map.empty"
      unfolding R(2) by (rule replay_consumed) (simp_all add: R(1) d)
    then have "a_mapping st (seg_id (segs ! p)) =
        (case consumed (given2 st) (given3 st) ! p of None \<Rightarrow> None | Some k \<Rightarrow> Some (tp ! k))"
      using replay_nth [OF len d p, of tp Map.empty] by simp
    then show ?thesis
      using len by (simp add: c matchTexts_adaptive_def Let_def st_def [symmetric]
          split: option.splits)
  qed
  then show "length (consumed_indices segs tt) = length segs"
    and "mapping (matchTexts_adaptive segs tt) (seg_id (segs ! p)) =
         map_option (\<lambda>k. splitIntoParagraphs tt ! k) (consumed_indices segs tt ! p)"
    by (simp_all add: tp_def)
qed

section \<open>Completeness of the statistics\<close>

text \<open>
  C4. For every segment list and every translation text, and for both matchers, the
  returned statistics satisfy \<open>matched + unmatched = total\<close>, and \<open>total\<close> is the number of
  segments. For the adaptive matcher the statistics are those after Level 3.
\<close>

theorem stats_matched_unmatched_total:
  "st_matched (stats (matchTexts_strict segs tt)) + st_unmatched (stats (matchTexts_strict segs tt))
     = st_total (stats (matchTexts_strict segs tt)) \<and>
   st_total (stats (matchTexts_strict segs tt)) = int (length segs) \<and>
   st_matched (stats (matchTexts_adaptive segs tt)) + st_unmatched (stats (matchTexts_adaptive segs tt))
     = st_total (stats (matchTexts_adaptive segs tt)) \<and>
   st_total (stats (matchTexts_adaptive segs tt)) = int (length segs)"
proof -
  define tp where "tp = splitIntoParagraphs tt"
  have strict: "st_matched (stats (matchTexts_strict segs tt)) + st_unmatched (stats (matchTexts_strict segs tt))
     = int (length segs) \<and> st_total (stats (matchTexts_strict segs tt)) = int (length segs)"
  proof -
    consider (eq) "length segs = length tp" | (more) "length segs > length tp"
      | (less) "length segs < length tp"
      by linarith
    then show ?thesis
    proof cases
      case eq
      then show ?thesis
        by (simp add: matchTexts_strict_def Let_def tp_def [symmetric] structure_1to1_def
            init_stats_def)
    next
      case more
      then show ?thesis
        by (simp add: matchTexts_strict_def Let_def tp_def [symmetric] sequential_partial_def
            partial_fold_stats init_stats_def min_def)
    next
      case less
      then show ?thesis
        by (simp add: matchTexts_strict_def Let_def tp_def [symmetric] sequential_merge_def
            merge_fold_stats init_stats_def)
    qed
  qed
  have "st_matched (a_stats (adaptive_run segs tt)) + st_unmatched (a_stats (adaptive_run segs tt))
      = st_total (a_stats (adaptive_run segs tt))"
    "st_total (a_stats (adaptive_run segs tt)) = int (length segs)"
    by (rule adaptive_run_facts)+
  then show ?thesis
    using strict by (simp add: matchTexts_adaptive_def Let_def)
qed

theorem stats_matched_unmatched_total_witness:
  "st_matched (stats (matchTexts_adaptive
      [\<lparr>seg_id = 0, seg_text = js ''aaaa'', xmlPath = js ''d''\<rparr>,
       \<lparr>seg_id = 1, seg_text = js ''x'', xmlPath = js ''d''\<rparr>,
       \<lparr>seg_id = 2, seg_text = js ''zz'', xmlPath = js ''d''\<rparr>,
       \<lparr>seg_id = 3, seg_text = js ''zzzz'', xmlPath = js ''d''\<rparr>]
      (js ''x'' @ [10] @ js ''y'' @ [10] @ js ''bbbb''))) = 2 \<and>
   st_unmatched (stats (matchTexts_adaptive
      [\<lparr>seg_id = 0, seg_text = js ''aaaa'', xmlPath = js ''d''\<rparr>,
       \<lparr>seg_id = 1, seg_text = js ''x'', xmlPath = js ''d''\<rparr>,
       \<lparr>seg_id = 2, seg_text = js ''zz'', xmlPath = js ''d''\<rparr>,
       \<lparr>seg_id = 3, seg_text = js ''zzzz'', xmlPath = js ''d''\<rparr>]
      (js ''x'' @ [10] @ js ''y'' @ [10] @ js ''bbbb''))) = 2 \<and>
   st_total (stats (matchTexts_adaptive
      [\<lparr>seg_id = 0, seg_text = js ''aaaa'', xmlPath = js ''d''\<rparr>,
       \<lparr>seg_id = 1, seg_text = js ''x'', xmlPath = js ''d''\<rparr>,
       \<lparr>seg_id = 2, seg_text = js ''zz'', xmlPath = js ''d''\<rparr>,
       \<lparr>seg_id = 3, seg_text = js ''zzzz'', xmlPath = js ''d''\<rparr>]
      (js ''x'' @ [10] @ js ''y'' @ [10] @ js ''bbbb''))) = 4"
proof -
  define segs where "segs =
      [\<lparr>seg_id = 0, seg_text = js ''aaaa'', xmlPath = js ''d''\<rparr>,
       \<lparr>seg_id = 1, seg_text = js ''x'', xmlPath = js ''d''\<rparr>,
       \<lparr>seg_id = 2, seg_text = js ''zz'', xmlPath = js ''d''\<rparr>,
       \<lparr>seg_id = 3, seg_text = js ''zzzz'', xmlPath = js ''d''\<rparr>]"
  define t where "t = js ''x'' @ [10] @ js ''y'' @ [10] @ js ''bbbb''"
  have m: "st_matched (stats (matchTexts_adaptive segs t)) = 2"
    unfolding segs_def t_def by code_simp
  have l: "length segs = 4" by (simp add: segs_def)
  from stats_matched_unmatched_total [of segs t] m l
  have "st_unmatched (stats (matchTexts_adaptive segs t)) = 2"
    "st_total (stats (matchTexts_adaptive segs t)) = 4"
    by simp_all
  with m show ?thesis
    unfolding segs_def t_def by simp
qed

section \<open>Order of the consumed paragraphs\<close>

lemma somes_cons: "somes (x # xs) = (case x of None \<Rightarrow> somes xs | Some k \<Rightarrow> k # somes xs)"
  by (cases x) simp_all

lemma set_somes_consumed:
  "set (somes (consumed g2 g3)) \<subseteq> set (somes g2) \<union> set (somes g3)"
  by (induction g2 g3 rule: consumed.induct) (auto simp: somes_cons split: option.splits)

lemma distinct_somes_consumed:
  "distinct (somes g2 @ somes g3) \<Longrightarrow> distinct (somes (consumed g2 g3))"
proof (induction g2 g3 rule: consumed.induct)
  case (1 g3)
  show ?case by simp
next
  case (2 k g2 g3)
  then show ?case using set_somes_consumed [of g2 g3] by auto
next
  case (3 g2)
  then show ?case by simp
next
  case (4 g2 x g3)
  then show ?case using set_somes_consumed [of g2 g3] by (cases x) auto
qed

text \<open>
  C5, as stated, fails. Two segments \<open>aaaa\<close> and \<open>x\<close>, three translated lines \<open>x\<close>, \<open>y\<close>,
  \<open>bbbb\<close>: Level 2 gives the first segment the paragraph at index 2 (the only one of about
  its length) and has no paragraph left for the second; Level 3 then gives the second segment
  the unused paragraph at index 0.
\<close>

theorem consumed_order_counterexample:
  "\<not> sorted_wrt (\<le>) (somes (consumed_indices
        [\<lparr>seg_id = 0, seg_text = js ''aaaa'', xmlPath = js ''d''\<rparr>,
         \<lparr>seg_id = 1, seg_text = js ''x'', xmlPath = js ''d''\<rparr>]
        (js ''x'' @ [10] @ js ''y'' @ [10] @ js ''bbbb''))) \<and>
   mapping (matchTexts_adaptive
        [\<lparr>seg_id = 0, seg_text = js ''aaaa'', xmlPath = js ''d''\<rparr>,
         \<lparr>seg_id = 1, seg_text = js ''x'', xmlPath = js ''d''\<rparr>]
        (js ''x'' @ [10] @ js ''y'' @ [10] @ js ''bbbb'')) 0 = Some (js ''bbbb'') \<and>
   mapping (matchTexts_adaptive
        [\<lparr>seg_id = 0, seg_text = js ''aaaa'', xmlPath = js ''d''\<rparr>,
         \<lparr>seg_id = 1, seg_text = js ''x'', xmlPath = js ''d''\<rparr>]
        (js ''x'' @ [10] @ js ''y'' @ [10] @ js ''bbbb'')) 1 = Some (js ''x'')"
  by code_simp

text \<open>
  C5, amended. For every input to the adaptive matcher, the paragraph indices consumed by
  the sequential levels (Level 1 and Level 2), taken in segment order, are strictly
  increasing. (Level 3 gives a segment any unused paragraph, also one that lies before a
  paragraph consumed for an earlier segment.)
\<close>

theorem sequential_levels_increasing:
  "sorted_wrt (<) (somes (given2 (adaptive_run segs tt)))"
  by (rule adaptive_run_facts)

theorem sequential_levels_increasing_witness:
  "given2 (adaptive_run
      [\<lparr>seg_id = 0, seg_text = js ''aaaa'', xmlPath = js ''d''\<rparr>,
       \<lparr>seg_id = 1, seg_text = js ''bbbb'', xmlPath = js ''d''\<rparr>,
       \<lparr>seg_id = 2, seg_text = js ''x'', xmlPath = js ''d''\<rparr>]
      (js ''x'' @ [10] @ js ''cccc'' @ [10] @ js ''y'' @ [10] @ js ''dddd'')) =
     [Some 1, Some 3, None] \<and>
   sorted_wrt (<) (somes (given2 (adaptive_run
      [\<lparr>seg_id = 0, seg_text = js ''aaaa'', xmlPath = js ''d''\<rparr>,
       \<lparr>seg_id = 1, seg_text = js ''bbbb'', xmlPath = js ''d''\<rparr>,
       \<lparr>seg_id = 2, seg_text = js ''x'', xmlPath = js ''d''\<rparr>]
      (js ''x'' @ [10] @ js ''cccc'' @ [10] @ js ''y'' @ [10] @ js ''dddd''))))"
proof -
  define segs where "segs =
      [\<lparr>seg_id = 0, seg_text = js ''aaaa'', xmlPath = js ''d''\<rparr>,
       \<lparr>seg_id = 1, seg_text = js ''bbbb'', xmlPath = js ''d''\<rparr>,
       \<lparr>seg_id = 2, seg_text = js ''x'', xmlPath = js ''d''\<rparr>]"
  define t where "t = js ''x'' @ [10] @ js ''cccc'' @ [10] @ js ''y'' @ [10] @ js ''dddd''"
  have g: "given2 (adaptive_run segs t) = [Some 1, Some 3, None]"
    unfolding segs_def t_def by code_simp
  from g sequential_levels_increasing [of segs t] show ?thesis
    unfolding segs_def t_def by blast
qed

section \<open>No paragraph is used twice\<close>

text \<open>
  C6. For every input to the adaptive matcher, no paragraph index is given to two segments:
  the indices that Level 2 consumed (by the window match or the positional fallback) and the
  indices that Level 3 gave are all different, no index that Level 3 gave is in the set of
  used indices that Level 2 left, and so the consumed indices, listed per segment, hold no
  index twice. These indices are the ones behind the mapping: with segment ids that differ,
  the mapping at the id of a segment is the paragraph with the index consumed for it.
\<close>

theorem no_double_use:
  "distinct (somes (given2 (adaptive_run segs tt)) @ somes (given3 (adaptive_run segs tt))) \<and>
   set (somes (given3 (adaptive_run segs tt))) \<inter> usedTranslations (adaptive_run segs tt) = {} \<and>
   distinct (somes (consumed_indices segs tt)) \<and>
   (distinct (map seg_id segs) \<longrightarrow>
      length (consumed_indices segs tt) = length segs \<and>
      (\<forall>p < length segs.
         mapping (matchTexts_adaptive segs tt) (seg_id (segs ! p)) =
         map_option (\<lambda>k. splitIntoParagraphs tt ! k) (consumed_indices segs tt ! p)))"
proof -
  define st where "st = adaptive_run segs tt"
  have d: "distinct (somes (given2 st) @ somes (given3 st))"
    unfolding st_def by (rule adaptive_run_facts)
  have "set (somes (given3 st)) \<inter> usedTranslations st = {}"
  proof (cases "length segs = length (splitIntoParagraphs tt)")
    case True
    then show ?thesis
      by (simp add: st_def adaptive_run_tier1 init_astate_def)
  next
    case False
    define tp where "tp = splitIntoParagraphs tt"
    from False have st: "st = level3 tp (level2 segs tp)"
      unfolding st_def tp_def by (rule adaptive_run_else)
    have "level3_inv tp st"
      unfolding st by (rule level3_facts) (rule level2_facts)+
    then show ?thesis by (auto simp: level3_inv_def)
  qed
  moreover have "length (consumed_indices segs tt) = length segs"
    by (simp add: consumed_indices_def Let_def length_consumed)
       (cases "length segs = length (splitIntoParagraphs tt)";
        simp add: adaptive_run_tier1 init_astate_def adaptive_run_replay)
  moreover have "mapping (matchTexts_adaptive segs tt) (seg_id (segs ! p)) =
         map_option (\<lambda>k. splitIntoParagraphs tt ! k) (consumed_indices segs tt ! p)"
    if "distinct (map seg_id segs)" "p < length segs" for p
    using that by (rule consumed_indices_mapping)
  ultimately show ?thesis
    using d by (simp add: st_def [symmetric] consumed_indices_def Let_def distinct_somes_consumed)
qed

theorem no_double_use_witness:
  "consumed_indices
      [\<lparr>seg_id = 0, seg_text = js ''aaaa'', xmlPath = js ''d''\<rparr>,
       \<lparr>seg_id = 1, seg_text = js ''x'', xmlPath = js ''d''\<rparr>]
      (js ''x'' @ [10] @ js ''y'' @ [10] @ js ''bbbb'') = [Some 2, Some 0] \<and>
   mapping (matchTexts_adaptive
      [\<lparr>seg_id = 0, seg_text = js ''aaaa'', xmlPath = js ''d''\<rparr>,
       \<lparr>seg_id = 1, seg_text = js ''x'', xmlPath = js ''d''\<rparr>]
      (js ''x'' @ [10] @ js ''y'' @ [10] @ js ''bbbb'')) 0 = Some (js ''bbbb'') \<and>
   mapping (matchTexts_adaptive
      [\<lparr>seg_id = 0, seg_text = js ''aaaa'', xmlPath = js ''d''\<rparr>,
       \<lparr>seg_id = 1, seg_text = js ''x'', xmlPath = js ''d''\<rparr>]
      (js ''x'' @ [10] @ js ''y'' @ [10] @ js ''bbbb'')) 1 = Some (js ''x'')"
proof -
  define segs where "segs =
      [\<lparr>seg_id = 0, seg_text = js ''aaaa'', xmlPath = js ''d''\<rparr>,
       \<lparr>seg_id = 1, seg_text = js ''x'', xmlPath = js ''d''\<rparr>]"
  define t where "t = js ''x'' @ [10] @ js ''y'' @ [10] @ js ''bbbb''"
  have c: "consumed_indices segs t = [Some 2, Some 0]"
    unfolding segs_def t_def by code_simp
  have tp: "splitIntoParagraphs t = [js ''x'', js ''y'', js ''bbbb'']"
    unfolding t_def by code_simp
  have d: "distinct (map seg_id segs)" by (simp add: segs_def)
  from no_double_use [of segs t] d
  have all: "\<forall>p < length segs.
         mapping (matchTexts_adaptive segs t) (seg_id (segs ! p)) =
         map_option (\<lambda>k. splitIntoParagraphs t ! k) (consumed_indices segs t ! p)"
    by blast
  have n: "length segs = 2" "seg_id (segs ! 0) = 0" "seg_id (segs ! Suc 0) = Suc 0"
    by (simp_all add: segs_def)
  from all [rule_format, of 0] all [rule_format, of 1]
  have "mapping (matchTexts_adaptive segs t) 0 = Some (js ''bbbb'')"
    "mapping (matchTexts_adaptive segs t) 1 = Some (js ''x'')"
    by (simp_all add: c tp n)
  with c show ?thesis
    unfolding segs_def t_def by simp
qed

section \<open>The structural match\<close>

text \<open>
  C2. When the translation has as many non-empty trimmed lines as there are segments, both
  matchers return the same result: nothing unmatched, \<open>matched = total\<close> (the number of
  segments), \<open>unmatched = 0\<close>, the method \<open>structure-1:1\<close>, a mapping whose keys are the
  segment ids, and, the segment ids being different from each other, the segment at each
  position mapped to the paragraph at that position.
\<close>

theorem structure_match_identity:
  "length segs = length (splitIntoParagraphs tt) \<Longrightarrow>
   (let paras = splitIntoParagraphs tt; r = matchTexts_strict segs tt in
      matchTexts_adaptive segs tt = r \<and>
      unmatched r = [] \<and>
      st_matched (stats r) = st_total (stats r) \<and> st_total (stats r) = int (length segs) \<and>
      st_unmatched (stats r) = 0 \<and> st_method (stats r) = ''structure-1:1'' \<and>
      dom (mapping r) = seg_id ` set segs \<and>
      (distinct (map seg_id segs) \<longrightarrow>
         (\<forall>i < length segs. mapping r (seg_id (segs ! i)) = Some (paras ! i))))"
  by (simp add: Let_def strict_tier1 adaptive_tier1 structure_1to1_nth structure_1to1_dom)
     (simp add: structure_1to1_def init_stats_def)

theorem structure_match_identity_witness:
  "(let r = matchTexts_adaptive
        [\<lparr>seg_id = 0, seg_text = js ''Hello world'', xmlPath = js ''d''\<rparr>,
         \<lparr>seg_id = 1, seg_text = js ''Second line'', xmlPath = js ''d''\<rparr>]
        (js ''Bonjour le monde'' @ [10] @ js ''Deuxi'' @ [232] @ js ''me ligne'')
    in mapping r 0 = Some (js ''Bonjour le monde'') \<and>
       mapping r 1 = Some (js ''Deuxi'' @ [232] @ js ''me ligne'') \<and>
       dom (mapping r) = {0, 1} \<and>
       unmatched r = [] \<and> st_method (stats r) = ''structure-1:1'' \<and>
       st_matched (stats r) = 2 \<and> st_total (stats r) = 2 \<and> st_unmatched (stats r) = 0)"
proof -
  define segs where "segs =
        [\<lparr>seg_id = 0, seg_text = js ''Hello world'', xmlPath = js ''d''\<rparr>,
         \<lparr>seg_id = 1, seg_text = js ''Second line'', xmlPath = js ''d''\<rparr>]"
  define t where "t = js ''Bonjour le monde'' @ [10] @ js ''Deuxi'' @ [232] @ js ''me ligne''"
  have p: "splitIntoParagraphs t = [js ''Bonjour le monde'', js ''Deuxi'' @ [232] @ js ''me ligne'']"
    unfolding t_def by code_simp
  have l: "length segs = length (splitIntoParagraphs t)"
    by (simp add: p segs_def)
  have d: "distinct (map seg_id segs)" by (simp add: segs_def)
  note A = structure_match_identity [OF l, unfolded Let_def p]
  from A d have all: "\<forall>i < length segs. mapping (matchTexts_strict segs t) (seg_id (segs ! i)) =
      Some ([js ''Bonjour le monde'', js ''Deuxi'' @ [232] @ js ''me ligne''] ! i)"
    by blast
  from all [rule_format, of 0] all [rule_format, of 1]
  have m: "mapping (matchTexts_strict segs t) 0 = Some (js ''Bonjour le monde'')"
    "mapping (matchTexts_strict segs t) 1 = Some (js ''Deuxi'' @ [232] @ js ''me ligne'')"
    by (simp_all add: segs_def)
  have s: "seg_id ` set segs = {0, 1}" by (auto simp: segs_def)
  show ?thesis
    unfolding Let_def segs_def [symmetric] t_def [symmetric]
    using A m s by (simp add: segs_def)
qed

section \<open>The translated paragraphs are clean\<close>

lemma split_lines_nonempty: "split_lines s \<noteq> []"
  by (induction s rule: split_lines.induct) (auto split: list.splits)

lemma split_lines_no_lf: "l \<in> set (split_lines s) \<Longrightarrow> 10 \<notin> set l"
proof (induction s arbitrary: l rule: split_lines.induct)
  case 1
  then show ?case by simp
next
  case (2 c cs)
  show ?case
  proof (cases "c = 10")
    case True
    with 2 show ?thesis by auto
  next
    case c: False
    show ?thesis
    proof (cases cs)
      case Nil
      with c 2 show ?thesis by auto
    next
      case (Cons d ds)
      show ?thesis
      proof (cases "c = 13 \<and> d = 10")
        case True
        with c Cons 2 show ?thesis by auto
      next
        case False
        obtain x xs where sl: "split_lines cs = x # xs"
          using split_lines_nonempty [of cs] by (cases "split_lines cs") auto
        from c Cons False sl "2.prems" have "l = c # x \<or> l \<in> set xs"
          by auto
        moreover have "10 \<notin> set x" "\<And>l. l \<in> set xs \<Longrightarrow> 10 \<notin> set l"
          using "2.IH"(3) [OF c Cons False] sl by auto
        ultimately show ?thesis using c by auto
      qed
    qed
  qed
qed

lemma set_trim: "set (trim s) \<subseteq> set s"
proof
  fix x
  assume "x \<in> set (trim s)"
  then have "x \<in> set (dropWhile is_space (rev (dropWhile is_space s)))"
    by (simp add: trim_def)
  then have "x \<in> set (rev (dropWhile is_space s))" by (rule set_dropWhileD)
  then have "x \<in> set (dropWhile is_space s)" by simp
  then show "x \<in> set s" by (rule set_dropWhileD)
qed

lemma last_dropWhile: "dropWhile P xs \<noteq> [] \<Longrightarrow> last (dropWhile P xs) = last xs"
  by (induction xs) (auto split: if_splits)

lemma trim_ends:
  assumes "trim s \<noteq> []"
  shows "\<not> is_space (hd (trim s))" and "\<not> is_space (last (trim s))"
proof -
  define u where "u = dropWhile is_space s"
  define v where "v = dropWhile is_space (rev u)"
  have t: "trim s = rev v" by (simp add: trim_def u_def v_def)
  with assms have v: "v \<noteq> []" by simp
  then have u: "u \<noteq> []" by (auto simp: v_def)
  from v have "\<not> is_space (hd v)"
    unfolding v_def by (rule hd_dropWhile)
  then show "\<not> is_space (last (trim s))"
    using v by (simp add: t last_rev)
  from v have "last v = last (rev u)"
    unfolding v_def by (rule last_dropWhile)
  also have "\<dots> = hd u" using u by (simp add: last_rev)
  finally have "hd (trim s) = hd u" using v by (simp add: t hd_rev)
  moreover from u have "\<not> is_space (hd u)"
    unfolding u_def by (rule hd_dropWhile)
  ultimately show "\<not> is_space (hd (trim s))" by simp
qed

lemma paragraphs_clean:
  assumes "p \<in> set (splitIntoParagraphs tt)"
  shows "clean_value p"
proof -
  from assms obtain l where l: "l \<in> set (split_lines tt)" "p = trim l" "p \<noteq> []"
    by (auto simp: splitIntoParagraphs_def)
  from l(1) have "10 \<notin> set l" by (rule split_lines_no_lf)
  with l(2) set_trim [of l] have "10 \<notin> set p" by auto
  with l(2,3) trim_ends [of l] show ?thesis by (simp add: clean_value_def)
qed

lemma join_clean:
  "ps \<noteq> [] \<Longrightarrow> (\<forall>p \<in> set ps. clean_value p) \<Longrightarrow> clean_value (join [32] ps)"
proof (induction "[32::nat]" ps rule: join.induct)
  case 1
  then show ?case by simp
next
  case (2 x)
  then show ?case by simp
next
  case (3 x y ys)
  then have "clean_value (join [32] (y # ys))" and "clean_value x" by simp_all
  then show ?case by (simp add: clean_value_def)
qed

text \<open>The values that the strict matcher stores.\<close>

lemma strict_values:
  assumes "mapping (matchTexts_strict segs tt) k = Some v"
  shows "v \<in> set (splitIntoParagraphs tt) \<or>
         (\<exists>ls. ls \<noteq> [] \<and> set ls \<subseteq> set (splitIntoParagraphs tt) \<and> v = join [32] ls)"
proof -
  define tp where "tp = splitIntoParagraphs tt"
  consider (eq) "length segs = length tp" | (more) "length segs > length tp"
    | (less) "length segs < length tp"
    by linarith
  then have "v \<in> set tp \<or> (\<exists>ls. ls \<noteq> [] \<and> set ls \<subseteq> set tp \<and> v = join [32] ls)"
  proof cases
    case eq
    with assms have "mapping (structure_1to1 segs tp) k = Some v"
      by (simp add: strict_tier1 tp_def)
    with eq show ?thesis using structure_1to1_values by blast
  next
    case more
    with assms have "fold (\<lambda>i m. m(seg_id (segs ! i) \<mapsto> tp ! i)) [0 ..< length tp] Map.empty k = Some v"
      by (simp add: matchTexts_strict_def Let_def tp_def [symmetric] sequential_partial_def
          partial_fold_mapping min_def)
    from fold_sets_values [OF this] show ?thesis by auto
  next
    case less
    define f where "f = (\<lambda>i. if Suc i < length segs then tp ! i else join [32] (drop i tp))"
    from less assms have "fold (\<lambda>i m. m(seg_id (segs ! i) \<mapsto> f i)) [0 ..< length segs] Map.empty k = Some v"
      by (simp add: matchTexts_strict_def Let_def tp_def [symmetric] sequential_merge_def
          merge_fold_mapping f_def)
    from fold_sets_values [OF this] obtain i where i: "i < length segs" "v = f i" by auto
    show ?thesis
    proof (cases "Suc i < length segs")
      case True
      with i less show ?thesis by (simp add: f_def)
    next
      case False
      with i less have "v = join [32] (drop i tp)" "drop i tp \<noteq> []" "set (drop i tp) \<subseteq> set tp"
        by (simp_all add: f_def set_drop_subset)
      then show ?thesis by blast
    qed
  qed
  then show ?thesis by (simp add: tp_def)
qed

text \<open>
  C10, as stated, fails: \<open>split(/\r?\n/)\<close> cuts the text at a line feed only, so that a
  carriage return that no line feed follows stays inside its line, and so do the line
  separator and the paragraph separator. For the one segment \<open>Hello\<close> and the translation
  \<open>Bonjour\<close>, carriage return, \<open>Monde\<close>, both matchers store the whole text, carriage return
  included, as the value of the segment; with the line separator in place of the carriage
  return it is the same.
\<close>

theorem mapped_value_newline_counterexample:
  "mapping (matchTexts_strict [\<lparr>seg_id = 0, seg_text = js ''Hello'', xmlPath = js ''d''\<rparr>]
      (js ''Bonjour'' @ [13] @ js ''Monde'')) 0 = Some (js ''Bonjour'' @ [13] @ js ''Monde'') \<and>
   mapping (matchTexts_adaptive [\<lparr>seg_id = 0, seg_text = js ''Hello'', xmlPath = js ''d''\<rparr>]
      (js ''Bonjour'' @ [13] @ js ''Monde'')) 0 = Some (js ''Bonjour'' @ [13] @ js ''Monde'') \<and>
   \<not> spec_clean_value (js ''Bonjour'' @ [13] @ js ''Monde'') \<and>
   mapping (matchTexts_strict [\<lparr>seg_id = 0, seg_text = js ''Hello'', xmlPath = js ''d''\<rparr>]
      (js ''Bonjour'' @ [8232] @ js ''Monde'')) 0 = Some (js ''Bonjour'' @ [8232] @ js ''Monde'') \<and>
   mapping (matchTexts_adaptive [\<lparr>seg_id = 0, seg_text = js ''Hello'', xmlPath = js ''d''\<rparr>]
      (js ''Bonjour'' @ [8232] @ js ''Monde'')) 0 = Some (js ''Bonjour'' @ [8232] @ js ''Monde'') \<and>
   \<not> spec_clean_value (js ''Bonjour'' @ [8232] @ js ''Monde'')"
  by code_simp

text \<open>
  C10, amended. For every input, every value of the mapping that either matcher returns is
  not empty, holds no line feed, and neither starts nor ends with white space (a carriage
  return, a line separator or a paragraph separator can stand inside a value, not at its
  ends). In the adaptive matcher each value is one of the non-empty trimmed lines of the
  translation; in the strict matcher it is one of those lines or several of them joined by
  single spaces.
\<close>

theorem mapped_values_clean:
  "(\<forall>k v. mapping (matchTexts_strict segs tt) k = Some v \<longrightarrow>
      clean_value v \<and>
      (v \<in> set (splitIntoParagraphs tt) \<or>
       (\<exists>ls. ls \<noteq> [] \<and> set ls \<subseteq> set (splitIntoParagraphs tt) \<and> v = join [32] ls))) \<and>
   (\<forall>k v. mapping (matchTexts_adaptive segs tt) k = Some v \<longrightarrow>
      clean_value v \<and> v \<in> set (splitIntoParagraphs tt))"
proof (intro conjI allI impI)
  fix k v
  assume "mapping (matchTexts_strict segs tt) k = Some v"
  then show sv: "v \<in> set (splitIntoParagraphs tt) \<or>
       (\<exists>ls. ls \<noteq> [] \<and> set ls \<subseteq> set (splitIntoParagraphs tt) \<and> v = join [32] ls)"
    by (rule strict_values)
  then show "clean_value v"
  proof
    assume "v \<in> set (splitIntoParagraphs tt)"
    then show ?thesis by (rule paragraphs_clean)
  next
    assume "\<exists>ls. ls \<noteq> [] \<and> set ls \<subseteq> set (splitIntoParagraphs tt) \<and> v = join [32] ls"
    then obtain ls where "ls \<noteq> []" "set ls \<subseteq> set (splitIntoParagraphs tt)" "v = join [32] ls"
      by blast
    then show ?thesis using paragraphs_clean by (auto intro!: join_clean)
  qed
next
  fix k v
  assume "mapping (matchTexts_adaptive segs tt) k = Some v"
  then have "a_mapping (adaptive_run segs tt) k = Some v"
    by (simp add: matchTexts_adaptive_def Let_def)
  then show "v \<in> set (splitIntoParagraphs tt)"
    using adaptive_run_facts(4) [of segs tt] by blast
  then show "clean_value v" by (rule paragraphs_clean)
qed

theorem mapped_values_clean_witness:
  "mapping (matchTexts_strict
        [\<lparr>seg_id = 0, seg_text = js ''one'', xmlPath = js ''d''\<rparr>,
         \<lparr>seg_id = 1, seg_text = js ''two'', xmlPath = js ''d''\<rparr>]
        (js '' un '' @ [13, 10, 10] @ js ''deux'' @ [10] @ js ''  trois'')) 1
     = Some (js ''deux trois'') \<and>
   clean_value (js ''deux trois'') \<and>
   mapping (matchTexts_adaptive
        [\<lparr>seg_id = 0, seg_text = js ''one'', xmlPath = js ''d''\<rparr>,
         \<lparr>seg_id = 1, seg_text = js ''two'', xmlPath = js ''d''\<rparr>]
        (js '' un '' @ [13, 10, 10] @ js ''deux'' @ [10] @ js ''  trois'')) 0
     = Some (js ''un'') \<and>
   clean_value (js ''un'')"
proof -
  define segs where "segs =
        [\<lparr>seg_id = 0, seg_text = js ''one'', xmlPath = js ''d''\<rparr>,
         \<lparr>seg_id = 1, seg_text = js ''two'', xmlPath = js ''d''\<rparr>]"
  define t where "t = js '' un '' @ [13, 10, 10] @ js ''deux'' @ [10] @ js ''  trois''"
  have s: "mapping (matchTexts_strict segs t) 1 = Some (js ''deux trois'')"
    unfolding segs_def t_def by code_simp
  have a: "mapping (matchTexts_adaptive segs t) 0 = Some (js ''un'')"
    unfolding segs_def t_def by code_simp
  note A = mapped_values_clean [of segs t]
  from A s have "clean_value (js ''deux trois'')" by blast
  moreover from A a have "clean_value (js ''un'')" by blast
  ultimately show ?thesis
    using s a unfolding segs_def t_def by simp
qed

section \<open>Degenerate inputs\<close>

lemma level2_step_no_paragraphs: "level2_step [] seg st = defer_segment seg st"
  by (simp add: level2_step_def positional_fallback_def)

lemma fold_defer:
  "a_mapping (fold defer_segment segs st) = a_mapping st"
  "a_unmatched (fold defer_segment segs st) = a_unmatched st @ segs"
  "st_matched (a_stats (fold defer_segment segs st)) = st_matched (a_stats st)"
  "st_fuzzy (a_stats (fold defer_segment segs st)) = st_fuzzy (a_stats st)"
  "st_unmatched (a_stats (fold defer_segment segs st)) = st_unmatched (a_stats st) + int (length segs)"
  "usedTranslations (fold defer_segment segs st) = usedTranslations st"
  by (induction segs arbitrary: st) (simp_all add: defer_segment_def)

lemma level2_no_paragraphs:
  "a_mapping (level2 segs []) = Map.empty"
  "a_unmatched (level2 segs []) = segs"
  "st_matched (a_stats (level2 segs [])) = 0"
  "st_fuzzy (a_stats (level2 segs [])) = 0"
  "st_unmatched (a_stats (level2 segs [])) = int (length segs)"
proof -
  have "level2_step [] = defer_segment"
    by (rule ext, rule ext) (rule level2_step_no_paragraphs)
  then show "a_mapping (level2 segs []) = Map.empty"
    "a_unmatched (level2 segs []) = segs"
    "st_matched (a_stats (level2 segs [])) = 0"
    "st_fuzzy (a_stats (level2 segs [])) = 0"
    "st_unmatched (a_stats (level2 segs [])) = int (length segs)"
    by (simp_all add: level2_def fold_defer init_astate_def init_stats_def)
qed

lemma level3_step_no_unused:
  "unusedTranslations st = [] \<Longrightarrow> level3_step seg st = keep_unmatched seg st"
  by (simp add: level3_step_def)

lemma fold_keep:
  "unusedTranslations st = [] \<Longrightarrow>
   a_mapping (fold level3_step segs st) = a_mapping st \<and>
   stillUnmatched (fold level3_step segs st) = stillUnmatched st @ segs \<and>
   a_stats (fold level3_step segs st) = a_stats st"
proof (induction segs arbitrary: st)
  case Nil
  show ?case by simp
next
  case (Cons seg segs)
  have "unusedTranslations (keep_unmatched seg st) = []"
    using Cons.prems by (simp add: keep_unmatched_def)
  from Cons.IH [OF this] show ?case
    using Cons.prems by (simp add: level3_step_no_unused) (simp add: keep_unmatched_def)
qed

lemma level3_no_paragraphs:
  "a_mapping (level3 [] st) = a_mapping st"
  "a_unmatched (level3 [] st) = a_unmatched st"
  "a_stats (level3 [] st) = a_stats st"
  using fold_keep [of "st\<lparr>unusedTranslations := [], stillUnmatched := []\<rparr>" "a_unmatched st"]
  by (simp_all add: level3_def Let_def)

lemma adaptive_no_paragraphs:
  assumes "splitIntoParagraphs tt = []"
  shows "mapping (matchTexts_adaptive segs tt) = Map.empty"
    and "unmatched (matchTexts_adaptive segs tt) = segs"
    and "st_matched (stats (matchTexts_adaptive segs tt)) = 0"
    and "st_fuzzy (stats (matchTexts_adaptive segs tt)) = 0"
    and "st_unmatched (stats (matchTexts_adaptive segs tt)) = int (length segs)"
proof -
  have "mapping (matchTexts_adaptive segs tt) = Map.empty \<and>
    unmatched (matchTexts_adaptive segs tt) = segs \<and>
    st_matched (stats (matchTexts_adaptive segs tt)) = 0 \<and>
    st_fuzzy (stats (matchTexts_adaptive segs tt)) = 0 \<and>
    st_unmatched (stats (matchTexts_adaptive segs tt)) = int (length segs)"
  proof (cases "segs = []")
    case True
    with assms show ?thesis
      by (simp add: adaptive_tier1 structure_1to1_def init_stats_def)
  next
    case False
    with assms have "adaptive_run segs tt = level3 [] (level2 segs [])"
      by (simp add: adaptive_run_else)
    then show ?thesis
      by (simp add: matchTexts_adaptive_def Let_def level3_no_paragraphs level2_no_paragraphs)
  qed
  then show "mapping (matchTexts_adaptive segs tt) = Map.empty"
    and "unmatched (matchTexts_adaptive segs tt) = segs"
    and "st_matched (stats (matchTexts_adaptive segs tt)) = 0"
    and "st_fuzzy (stats (matchTexts_adaptive segs tt)) = 0"
    and "st_unmatched (stats (matchTexts_adaptive segs tt)) = int (length segs)"
    by simp_all
qed

lemma adaptive_no_segments:
  "mapping (matchTexts_adaptive [] tt) = Map.empty"
  "unmatched (matchTexts_adaptive [] tt) = []"
  "st_matched (stats (matchTexts_adaptive [] tt)) = 0"
  "st_fuzzy (stats (matchTexts_adaptive [] tt)) = 0"
  "st_unmatched (stats (matchTexts_adaptive [] tt)) = 0"
proof -
  have "mapping (matchTexts_adaptive [] tt) = Map.empty \<and>
    unmatched (matchTexts_adaptive [] tt) = [] \<and>
    st_matched (stats (matchTexts_adaptive [] tt)) = 0 \<and>
    st_fuzzy (stats (matchTexts_adaptive [] tt)) = 0 \<and>
    st_unmatched (stats (matchTexts_adaptive [] tt)) = 0"
  proof (cases "splitIntoParagraphs tt = []")
    case True
    then show ?thesis
      by (simp add: adaptive_tier1 structure_1to1_def init_stats_def)
  next
    case False
    then have "adaptive_run [] tt = level3 (splitIntoParagraphs tt) (level2 [] (splitIntoParagraphs tt))"
      by (simp add: adaptive_run_else)
    then show ?thesis
      by (simp add: matchTexts_adaptive_def Let_def level3_def level2_def init_astate_def
          init_stats_def)
  qed
  then show "mapping (matchTexts_adaptive [] tt) = Map.empty"
    "unmatched (matchTexts_adaptive [] tt) = []"
    "st_matched (stats (matchTexts_adaptive [] tt)) = 0"
    "st_fuzzy (stats (matchTexts_adaptive [] tt)) = 0"
    "st_unmatched (stats (matchTexts_adaptive [] tt)) = 0"
    by simp_all
qed

lemma strict_no_paragraphs:
  assumes "splitIntoParagraphs tt = []"
  shows "mapping (matchTexts_strict segs tt) = Map.empty"
    and "unmatched (matchTexts_strict segs tt) = segs"
    and "st_matched (stats (matchTexts_strict segs tt)) = 0"
    and "st_fuzzy (stats (matchTexts_strict segs tt)) = 0"
    and "st_unmatched (stats (matchTexts_strict segs tt)) = int (length segs)"
proof -
  have "mapping (matchTexts_strict segs tt) = Map.empty \<and>
    unmatched (matchTexts_strict segs tt) = segs \<and>
    st_matched (stats (matchTexts_strict segs tt)) = 0 \<and>
    st_fuzzy (stats (matchTexts_strict segs tt)) = 0 \<and>
    st_unmatched (stats (matchTexts_strict segs tt)) = int (length segs)"
  proof (cases "segs = []")
    case True
    with assms show ?thesis
      by (simp add: strict_tier1 structure_1to1_def init_stats_def)
  next
    case False
    with assms have "matchTexts_strict segs tt = sequential_partial segs []"
      by (simp add: matchTexts_strict_def Let_def)
    then show ?thesis
      using map_nth_upt_drop [of 0 segs]
      by (simp add: sequential_partial_def partial_fold_mapping partial_fold_unmatched
          partial_fold_stats init_stats_def)
  qed
  then show "mapping (matchTexts_strict segs tt) = Map.empty"
    and "unmatched (matchTexts_strict segs tt) = segs"
    and "st_matched (stats (matchTexts_strict segs tt)) = 0"
    and "st_fuzzy (stats (matchTexts_strict segs tt)) = 0"
    and "st_unmatched (stats (matchTexts_strict segs tt)) = int (length segs)"
    by simp_all
qed

lemma strict_no_segments:
  "mapping (matchTexts_strict [] tt) = Map.empty"
  "unmatched (matchTexts_strict [] tt) = []"
  "st_matched (stats (matchTexts_strict [] tt)) = 0"
  "st_unmatched (stats (matchTexts_strict [] tt)) = 0"
  by (simp_all add: matchTexts_strict_def Let_def structure_1to1_def sequential_merge_def
      init_stats_def)

section \<open>Degenerate inputs: what the matchers return\<close>

text \<open>
  C8, as stated, fails: with one segment and an empty translation both matchers return
  that segment in the unmatched list and count it in \<open>unmatched\<close>.
\<close>

theorem degenerate_unmatched_counterexample:
  "unmatched (matchTexts_strict [\<lparr>seg_id = 0, seg_text = js ''one'', xmlPath = js ''d''\<rparr>] [])
     = [\<lparr>seg_id = 0, seg_text = js ''one'', xmlPath = js ''d''\<rparr>] \<and>
   st_unmatched (stats (matchTexts_strict
     [\<lparr>seg_id = 0, seg_text = js ''one'', xmlPath = js ''d''\<rparr>] [])) = 1 \<and>
   unmatched (matchTexts_adaptive [\<lparr>seg_id = 0, seg_text = js ''one'', xmlPath = js ''d''\<rparr>] [])
     = [\<lparr>seg_id = 0, seg_text = js ''one'', xmlPath = js ''d''\<rparr>] \<and>
   st_unmatched (stats (matchTexts_adaptive
     [\<lparr>seg_id = 0, seg_text = js ''one'', xmlPath = js ''d''\<rparr>] [])) = 1"
  by code_simp

text \<open>
  C8, amended. For a degenerate input (an empty segment list, or a translation without a
  non-empty line) both matchers return an empty mapping and \<open>matched = 0\<close>, and the adaptive
  matcher \<open>fuzzy = 0\<close>. With an empty segment list the unmatched list is empty and
  \<open>unmatched = 0\<close>. With a translation without a non-empty line the unmatched list is the
  whole segment list, \<open>unmatched\<close> is the number of segments and \<open>fuzzy = 0\<close>. The matchers are
  total functions: there is no input on which they fail.
\<close>

theorem degenerate_inputs:
  "(segs = [] \<or> splitIntoParagraphs tt = [] \<longrightarrow>
      mapping (matchTexts_strict segs tt) = Map.empty \<and>
      st_matched (stats (matchTexts_strict segs tt)) = 0 \<and>
      mapping (matchTexts_adaptive segs tt) = Map.empty \<and>
      st_matched (stats (matchTexts_adaptive segs tt)) = 0 \<and>
      st_fuzzy (stats (matchTexts_adaptive segs tt)) = 0) \<and>
   (segs = [] \<longrightarrow>
      unmatched (matchTexts_strict segs tt) = [] \<and>
      st_unmatched (stats (matchTexts_strict segs tt)) = 0 \<and>
      unmatched (matchTexts_adaptive segs tt) = [] \<and>
      st_unmatched (stats (matchTexts_adaptive segs tt)) = 0) \<and>
   (splitIntoParagraphs tt = [] \<longrightarrow>
      unmatched (matchTexts_strict segs tt) = segs \<and>
      st_unmatched (stats (matchTexts_strict segs tt)) = int (length segs) \<and>
      st_fuzzy (stats (matchTexts_strict segs tt)) = 0 \<and>
      unmatched (matchTexts_adaptive segs tt) = segs \<and>
      st_unmatched (stats (matchTexts_adaptive segs tt)) = int (length segs))"
proof (intro conjI impI)
  assume "segs = [] \<or> splitIntoParagraphs tt = []"
  then show "mapping (matchTexts_strict segs tt) = Map.empty"
    "st_matched (stats (matchTexts_strict segs tt)) = 0"
    "mapping (matchTexts_adaptive segs tt) = Map.empty"
    "st_matched (stats (matchTexts_adaptive segs tt)) = 0"
    "st_fuzzy (stats (matchTexts_adaptive segs tt)) = 0"
    by (auto simp: strict_no_segments strict_no_paragraphs adaptive_no_segments
        adaptive_no_paragraphs)
next
  assume "segs = []"
  then show "unmatched (matchTexts_strict segs tt) = []"
    "st_unmatched (stats (matchTexts_strict segs tt)) = 0"
    "unmatched (matchTexts_adaptive segs tt) = []"
    "st_unmatched (stats (matchTexts_adaptive segs tt)) = 0"
    by (simp_all add: strict_no_segments adaptive_no_segments)
next
  assume "splitIntoParagraphs tt = []"
  then show "unmatched (matchTexts_strict segs tt) = segs"
    "st_unmatched (stats (matchTexts_strict segs tt)) = int (length segs)"
    "st_fuzzy (stats (matchTexts_strict segs tt)) = 0"
    "unmatched (matchTexts_adaptive segs tt) = segs"
    "st_unmatched (stats (matchTexts_adaptive segs tt)) = int (length segs)"
    by (simp_all add: strict_no_paragraphs adaptive_no_paragraphs)
qed

theorem degenerate_inputs_witness:
  "mapping (matchTexts_strict [] (js ''un'')) = Map.empty \<and>
   unmatched (matchTexts_adaptive [] (js ''un'')) = [] \<and>
   st_unmatched (stats (matchTexts_adaptive [] (js ''un''))) = 0 \<and>
   splitIntoParagraphs (js '' '' @ [10]) = [] \<and>
   mapping (matchTexts_adaptive [\<lparr>seg_id = 0, seg_text = js ''one'', xmlPath = js ''d''\<rparr>]
     (js '' '' @ [10])) = Map.empty \<and>
   unmatched (matchTexts_strict [\<lparr>seg_id = 0, seg_text = js ''one'', xmlPath = js ''d''\<rparr>]
     (js '' '' @ [10])) = [\<lparr>seg_id = 0, seg_text = js ''one'', xmlPath = js ''d''\<rparr>] \<and>
   st_unmatched (stats (matchTexts_adaptive
     [\<lparr>seg_id = 0, seg_text = js ''one'', xmlPath = js ''d''\<rparr>] (js '' '' @ [10]))) = 1"
proof -
  have e: "splitIntoParagraphs (js '' '' @ [10]) = []" by code_simp
  show ?thesis
    using degenerate_inputs [of "[]" "js ''un''"]
      degenerate_inputs [of "[\<lparr>seg_id = 0, seg_text = js ''one'', xmlPath = js ''d''\<rparr>]"
        "js '' '' @ [10]"] e
    by simp
qed

section \<open>Rounding to a double\<close>

lemma pow2_powi: "pow2 e = 2 powi e"
  by (simp add: pow2_def power_int_def field_simps)

lemma pow2_pos: "0 < pow2 e"
  by (simp add: pow2_powi)

lemma pow2_add: "pow2 (a + b) = pow2 a * pow2 b"
  by (simp add: pow2_powi power_int_add)

lemma pow2_mono: "a \<le> b \<Longrightarrow> pow2 a \<le> pow2 b"
  by (simp add: pow2_powi power_int_increasing)

lemma pow2_strict_mono: "a < b \<Longrightarrow> pow2 a < pow2 b"
  by (simp add: pow2_powi power_int_strict_increasing)

lemma pow2_less_iff: "pow2 a < pow2 b \<longleftrightarrow> a < b"
  using pow2_strict_mono [of a b] pow2_mono [of b a] by (auto simp: not_less [symmetric])

lemma pow2_nat: "pow2 (int n) = 2 ^ n"
  by (simp add: pow2_def)

lemma pow2_0: "pow2 0 = 1" by (simp add: pow2_def)

lemma pow2_diff: "pow2 (a - b) = pow2 a / pow2 b"
  by (simp add: pow2_powi power_int_diff)

lemma expo_bounds:
  assumes "x \<noteq> 0"
  shows "pow2 (expo x) \<le> \<bar>x\<bar>" and "\<bar>x\<bar> < pow2 (expo x + 1)"
proof -
  obtain p q where pq: "quotient_of \<bar>x\<bar> = (p, q)" by (cases "quotient_of \<bar>x\<bar>") auto
  then have q: "q > 0" by (rule quotient_of_denom_pos)
  from pq have x: "\<bar>x\<bar> = of_int p / of_int q" by (rule quotient_of_div)
  from assms have "0 < \<bar>x\<bar>" by simp
  with x q have p: "p > 0" by (simp add: zero_less_divide_iff)
  define e where "e = bitlen p - bitlen q"
  from bitlen_bounds [OF p] have bp: "(2::rat) ^ nat (bitlen p - 1) \<le> of_int p" "of_int p < (2::rat) ^ nat (bitlen p)"
    by (metis of_int_le_iff of_int_numeral of_int_power, metis of_int_less_iff of_int_numeral of_int_power)
  from bitlen_bounds [OF q] have bq: "(2::rat) ^ nat (bitlen q - 1) \<le> of_int q" "of_int q < (2::rat) ^ nat (bitlen q)"
    by (metis of_int_le_iff of_int_numeral of_int_power, metis of_int_less_iff of_int_numeral of_int_power)
  have p1: "bitlen p \<ge> 1" using p by (simp add: bitlen_alt_def)
  have q1: "bitlen q \<ge> 1" using q by (simp add: bitlen_alt_def)
  have P: "pow2 (bitlen p - 1) \<le> of_int p" "of_int p < pow2 (bitlen p)"
    using bp p1 by (simp_all add: pow2_def)
  have Q: "pow2 (bitlen q - 1) \<le> of_int q" "of_int q < pow2 (bitlen q)"
    using bq q1 by (simp_all add: pow2_def)
  have up: "\<bar>x\<bar> < pow2 (e + 1)"
  proof -
    have "\<bar>x\<bar> < pow2 (bitlen p) / pow2 (bitlen q - 1)"
      unfolding x using P Q p q pow2_pos [of "bitlen q - 1"]
      by (intro frac_less) simp_all
    also have "\<dots> = pow2 (e + 1)"
      by (simp add: e_def pow2_diff [symmetric] algebra_simps)
    finally show ?thesis .
  qed
  have lo: "pow2 (e - 1) \<le> \<bar>x\<bar>"
  proof -
    have "pow2 (bitlen p - 1) / pow2 (bitlen q) \<le> \<bar>x\<bar>"
      unfolding x using P Q p q pow2_pos [of "bitlen p - 1"]
      by (intro frac_le) simp_all
    moreover have "pow2 (bitlen p - 1) / pow2 (bitlen q) = pow2 (e - 1)"
      by (simp add: e_def pow2_diff [symmetric] algebra_simps)
    ultimately show ?thesis by simp
  qed
  have ex: "expo x = (if pow2 e \<le> \<bar>x\<bar> then e else e - 1)"
    by (simp add: expo_def pq e_def Let_def)
  show "pow2 (expo x) \<le> \<bar>x\<bar>" using lo by (simp add: ex)
  show "\<bar>x\<bar> < pow2 (expo x + 1)" using up by (auto simp add: ex not_le)
qed

lemma expo_unique:
  assumes "pow2 e \<le> \<bar>x\<bar>" and "\<bar>x\<bar> < pow2 (e + 1)"
  shows "expo x = e"
proof -
  from assms pow2_pos [of e] have x: "x \<noteq> 0" by auto
  note B = expo_bounds [OF x]
  from B(1) assms(2) have "pow2 (expo x) < pow2 (e + 1)" by simp
  then have "expo x < e + 1" by (simp add: pow2_less_iff)
  moreover from B(2) assms(1) have "pow2 e < pow2 (expo x + 1)" by simp
  then have "e < expo x + 1" by (simp add: pow2_less_iff)
  ultimately show ?thesis by simp
qed

lemma round_even_bounds: "of_int \<lfloor>m\<rfloor> \<le> (of_int (round_even m) :: rat)" "round_even m \<le> \<lceil>m\<rceil>"
  "\<bar>of_int (round_even m) - m\<bar> \<le> 1 / 2"
proof -
  define f where "f = \<lfloor>m\<rfloor>"
  define d where "d = m - of_int f"
  have d: "0 \<le> d" "d < 1" by (simp_all add: d_def f_def) linarith
  have r: "round_even m = (if d < 1 / 2 then f else if d > 1 / 2 then f + 1
                      else if even f then f else f + 1)"
    by (simp add: round_even_def Let_def f_def d_def)
  show "of_int \<lfloor>m\<rfloor> \<le> (of_int (round_even m) :: rat)"
    by (simp add: r f_def [symmetric])
  have c: "d > 0 \<Longrightarrow> \<lceil>m\<rceil> = f + 1"
    unfolding d_def f_def by (simp add: ceiling_altdef)
  have "d = 0 \<Longrightarrow> \<lceil>m\<rceil> = f"
    unfolding d_def f_def by (simp add: ceiling_altdef)
  with c d show "round_even m \<le> \<lceil>m\<rceil>"
    by (cases "d = 0") (auto simp: r)
  have "of_int (round_even m) - m = (if d < 1 / 2 then - d else if d > 1 / 2 then 1 - d
                      else if even f then - d else 1 - d)"
    by (simp add: r d_def)
  then show "\<bar>of_int (round_even m) - m\<bar> \<le> 1 / 2"
    using d by (auto simp: abs_if split: if_splits)
qed

lemma round_even_le: "m \<le> of_int k \<Longrightarrow> round_even m \<le> k"
  using round_even_bounds(2) [of m] by (simp add: ceiling_le_iff order_trans)

lemma round_even_ge: "of_int k \<le> m \<Longrightarrow> k \<le> round_even m"
proof -
  assume "of_int k \<le> m"
  then have "k \<le> \<lfloor>m\<rfloor>" by (simp add: le_floor_iff)
  with round_even_bounds(1) [of m] show ?thesis by linarith
qed

lemma round_even_int: "round_even (of_int k) = k"
  by (simp add: round_even_def)

lemma fl_quantum: "x \<noteq> 0 \<Longrightarrow> fl x = of_int (round_even (x / quantum x)) * quantum x"
  by (simp add: fl_def Let_def)

lemma quantum_pos: "0 < quantum x"
  by (simp add: quantum_def pow2_pos)

lemma fl_error: "\<bar>fl x - x\<bar> \<le> quantum x / 2"
proof (cases "x = 0")
  case True
  then show ?thesis using quantum_pos [of 0] by (simp add: fl_def)
next
  case False
  define q where "q = quantum x"
  have q: "0 < q" by (simp add: q_def quantum_pos)
  have "fl x - x = (of_int (round_even (x / q)) - x / q) * q"
    using False q by (simp add: fl_quantum q_def [symmetric] algebra_simps)
  then have "\<bar>fl x - x\<bar> = \<bar>of_int (round_even (x / q)) - x / q\<bar> * q"
    using q by (simp add: abs_mult)
  also have "\<dots> \<le> (1 / 2) * q"
    using round_even_bounds(3) [of "x / q"] q by (intro mult_right_mono) simp_all
  finally show ?thesis by (simp add: q_def)
qed

lemma grid_int:
  assumes "j' \<le> j"
  shows "of_int k * pow2 j / pow2 j' = of_int (k * 2 ^ nat (j - j'))"
proof -
  have "pow2 j / pow2 j' = pow2 (int (nat (j - j')))"
    using assms by (simp add: pow2_diff [symmetric])
  then have "pow2 j / pow2 j' = 2 ^ nat (j - j')"
    by (simp only: pow2_nat)
  then have "of_int k * (pow2 j / pow2 j') = of_int k * 2 ^ nat (j - j')"
    by (simp only:)
  then show ?thesis by (simp only: times_divide_eq_right of_int_mult of_int_power of_int_numeral)
qed

lemma fl_le_grid:
  assumes "x \<le> of_int k * pow2 j" and "max (expo x) (- 1022) - 52 \<le> j"
  shows "fl x \<le> of_int k * pow2 j"
proof (cases "x = 0")
  case True
  with assms show ?thesis by (simp add: fl_def)
next
  case False
  define j' where "j' = max (expo x) (- 1022) - 52"
  have q: "quantum x = pow2 j'" by (simp add: quantum_def j'_def)
  define K where "K = k * 2 ^ nat (j - j')"
  have K: "of_int k * pow2 j / pow2 j' = of_int K"
    unfolding K_def using assms(2) by (intro grid_int) (simp add: j'_def)
  from assms(1) have "x / pow2 j' \<le> of_int k * pow2 j / pow2 j'"
    using pow2_pos [of j'] by (simp add: divide_right_mono)
  then have "round_even (x / pow2 j') \<le> K"
    unfolding K by (rule round_even_le)
  then have "(of_int (round_even (x / pow2 j')) :: rat) \<le> of_int K" by simp
  then have "of_int (round_even (x / pow2 j')) * pow2 j' \<le> of_int K * pow2 j'"
    using pow2_pos [of j'] by (simp add: mult_right_mono)
  also have "of_int K * pow2 j' = of_int k * pow2 j"
    using K pow2_pos [of j'] by (simp add: field_simps)
  finally show ?thesis using False by (simp add: fl_quantum q)
qed

lemma fl_ge_grid:
  assumes "of_int k * pow2 j \<le> x" and "max (expo x) (- 1022) - 52 \<le> j"
  shows "of_int k * pow2 j \<le> fl x"
proof (cases "x = 0")
  case True
  with assms show ?thesis by (simp add: fl_def)
next
  case False
  define j' where "j' = max (expo x) (- 1022) - 52"
  have q: "quantum x = pow2 j'" by (simp add: quantum_def j'_def)
  define K where "K = k * 2 ^ nat (j - j')"
  have K: "of_int k * pow2 j / pow2 j' = of_int K"
    unfolding K_def using assms(2) by (intro grid_int) (simp add: j'_def)
  from assms(1) have "of_int k * pow2 j / pow2 j' \<le> x / pow2 j'"
    using pow2_pos [of j'] by (simp add: divide_right_mono)
  then have "K \<le> round_even (x / pow2 j')"
    unfolding K by (rule round_even_ge)
  then have "(of_int K :: rat) \<le> of_int (round_even (x / pow2 j'))" by simp
  then have "of_int K * pow2 j' \<le> of_int (round_even (x / pow2 j')) * pow2 j'"
    using pow2_pos [of j'] by (simp add: mult_right_mono)
  moreover have "of_int K * pow2 j' = of_int k * pow2 j"
    using K pow2_pos [of j'] by (simp add: field_simps)
  ultimately show ?thesis using False by (simp add: fl_quantum q)
qed

lemma expo_less:
  assumes "x \<noteq> 0" and "\<bar>x\<bar> < pow2 e"
  shows "expo x < e"
proof -
  from expo_bounds(1) [OF assms(1)] assms(2) have "pow2 (expo x) < pow2 e" by simp
  then show ?thesis by (simp add: pow2_less_iff)
qed

text \<open>Numbers between 0 and 1: rounding keeps them there and moves them by at most 2^-54.\<close>

lemma fl_unit:
  assumes "0 \<le> x" and "x \<le> 1"
  shows "0 \<le> fl x" and "fl x \<le> 1" and "\<bar>fl x - x\<bar> \<le> 1 / 2 ^ 54"
proof -
  have e: "max (expo x) (- 1022) - 52 \<le> 0" if "x \<noteq> 0"
  proof -
    have "\<bar>x\<bar> < pow2 1" using assms by (simp add: pow2_def)
    from expo_less [OF that this] show ?thesis by simp
  qed
  show "0 \<le> fl x"
  proof (cases "x = 0")
    case True
    then show ?thesis by (simp add: fl_def)
  next
    case False
    from fl_ge_grid [of 0 0 x] assms e [OF False] show ?thesis by simp
  qed
  show "fl x \<le> 1"
  proof (cases "x = 0")
    case True
    then show ?thesis by (simp add: fl_def)
  next
    case False
    from fl_le_grid [of x 1 0] assms e [OF False] show ?thesis by (simp add: pow2_0)
  qed
  show "\<bar>fl x - x\<bar> \<le> 1 / 2 ^ 54"
  proof (cases "x = 0 \<or> x = 1")
    case True
    then show ?thesis
    proof
      assume "x = 0" then show ?thesis by (simp add: fl_def)
    next
      assume x: "x = 1"
      have "pow2 0 \<le> \<bar>1\<bar>" "\<bar>1 :: rat\<bar> < pow2 (0 + 1)" by (simp_all add: pow2_def)
      then have "expo 1 = 0" by (rule expo_unique)
      then have "fl 1 = 1" by (simp add: fl_def Let_def quantum_def pow2_def round_even_def)
      with x show ?thesis by simp
    qed
  next
    case False
    with assms have x: "x \<noteq> 0" "\<bar>x\<bar> < pow2 0" by (simp_all add: pow2_0)
    from expo_less [OF this] have "max (expo x) (- 1022) - 52 \<le> - 53" by simp
    then have "quantum x \<le> pow2 (- 53)" unfolding quantum_def by (rule pow2_mono)
    with fl_error [of x] have "\<bar>fl x - x\<bar> \<le> pow2 (- 53) / 2" by simp
    then show ?thesis by (simp add: pow2_def)
  qed
qed

lemma fl_mult_unit:
  assumes a: "0 \<le> a" "a \<le> 1" and b: "0 \<le> b" "b \<le> 1"
    and a0: "0 \<le> a0" "a0 \<le> 1" and b0: "0 \<le> b0" "b0 \<le> 1"
    and ea: "\<bar>a - a0\<bar> \<le> ea" and eb: "\<bar>b - b0\<bar> \<le> eb"
  shows "0 \<le> fl (a * b)" and "fl (a * b) \<le> 1" and "\<bar>fl (a * b) - a0 * b0\<bar> \<le> 1 / 2 ^ 54 + ea + eb"
proof -
  have ab: "0 \<le> a * b" "a * b \<le> 1" using a b by (simp_all add: mult_le_one)
  from fl_unit [OF ab] show "0 \<le> fl (a * b)" "fl (a * b) \<le> 1" by simp_all
  have "a * b - a0 * b0 = a * (b - b0) + (a - a0) * b0" by (simp add: algebra_simps)
  then have "\<bar>a * b - a0 * b0\<bar> \<le> \<bar>a * (b - b0)\<bar> + \<bar>(a - a0) * b0\<bar>"
    by (simp add: abs_triangle_ineq)
  also have "\<bar>a * (b - b0)\<bar> = a * \<bar>b - b0\<bar>" using a by (simp add: abs_mult)
  also have "\<bar>(a - a0) * b0\<bar> = \<bar>a - a0\<bar> * b0" using b0 by (simp add: abs_mult)
  finally have "\<bar>a * b - a0 * b0\<bar> \<le> a * \<bar>b - b0\<bar> + \<bar>a - a0\<bar> * b0" .
  moreover have "a * \<bar>b - b0\<bar> \<le> 1 * eb"
    using a eb by (intro mult_mono) simp_all
  moreover have "\<bar>a - a0\<bar> * b0 \<le> ea * 1"
    using b0 ea by (intro mult_mono) simp_all
  ultimately have "\<bar>a * b - a0 * b0\<bar> \<le> ea + eb" by simp
  with fl_unit(3) [OF ab] show "\<bar>fl (a * b) - a0 * b0\<bar> \<le> 1 / 2 ^ 54 + ea + eb"
    by linarith
qed

lemma fl_add_unit:
  assumes a: "0 \<le> a" and b: "0 \<le> b" and ab: "a + b \<le> 1"
    and ea: "\<bar>a - a0\<bar> \<le> ea" and eb: "\<bar>b - b0\<bar> \<le> eb"
  shows "0 \<le> fl (a + b)" and "fl (a + b) \<le> 1" and "\<bar>fl (a + b) - (a0 + b0)\<bar> \<le> 1 / 2 ^ 54 + ea + eb"
proof -
  have s: "0 \<le> a + b" using a b by simp
  from fl_unit [OF s ab] show "0 \<le> fl (a + b)" "fl (a + b) \<le> 1" by simp_all
  from fl_unit(3) [OF s ab] ea eb show "\<bar>fl (a + b) - (a0 + b0)\<bar> \<le> 1 / 2 ^ 54 + ea + eb"
    by linarith
qed

lemma round_even_less_half: "m < of_int N + 1 / 2 \<Longrightarrow> round_even m \<le> N"
proof -
  assume "m < of_int N + 1 / 2"
  with round_even_bounds(3) [of m] have "(of_int (round_even m) :: rat) < of_int N + 1" by linarith
  then have "(of_int (round_even m) :: rat) < of_int (N + 1)" by simp
  then have "round_even m < N + 1" by (simp only: of_int_less_iff)
  then show ?thesis by simp
qed

lemma round_even_greater_half: "of_int N + 1 / 2 < m \<Longrightarrow> N + 1 \<le> round_even m"
proof -
  assume "of_int N + 1 / 2 < m"
  with round_even_bounds(3) [of m] have "(of_int N :: rat) < of_int (round_even m)" by linarith
  then have "N < round_even m" by (simp only: of_int_less_iff)
  then show ?thesis by simp
qed

lemma fl_binade:
  assumes "pow2 e \<le> x" and "x < pow2 (e + 1)" and "- 1022 \<le> e"
  shows "fl x = of_int (round_even (x / pow2 (e - 52))) * pow2 (e - 52)"
proof -
  from assms(1) pow2_pos [of e] have x: "0 < x" by simp
  then have "expo x = e" using assms by (intro expo_unique) simp_all
  with x assms(3) show ?thesis by (simp add: fl_def Let_def quantum_def max_def)
qed

lemma fl_three_tenths: "fl (3 / 10) = 5404319552844595 / 2 ^ 54"
  by code_simp

text \<open>
  The test \<open>lenRatio > 0.3\<close> on the rounded quotient of two lengths below \<open>2^52\<close> decides
  whether the exact quotient exceeds three tenths.
\<close>

lemma ratio_floor_exact:
  fixes mn mx :: nat
  assumes "mn \<le> mx" and "mx < 2 ^ 52"
  shows "fl (of_nat mn / of_nat mx) > fl (3 / 10) \<longleftrightarrow> (of_nat mn / of_nat mx :: rat) > 3 / 10"
proof -
  define r :: rat where "r = of_nat mn / of_nat mx"
  have r: "0 \<le> r" "r \<le> 1" using assms by (auto simp: r_def divide_le_eq_1)
  have p54: "pow2 (- 2 - 52) = 1 / 2 ^ 54" "pow2 (- 2) = 1 / 4" "pow2 (- 2 + 1) = 1 / 2"
    "pow2 (- 1) = 1 / 2" "pow2 (- 54) = 1 / 2 ^ 54"
    by (simp_all add: pow2_def)
  have low: "fl r \<le> fl (3 / 10)" if "r \<le> 3 / 10"
  proof -
    consider "r = 0" | "0 < r" "r < 1 / 4" | "1 / 4 \<le> r" using r by linarith
    then show ?thesis
    proof cases
      case 1
      then show ?thesis by (simp add: fl_three_tenths) (simp add: fl_def)
    next
      case 2
      then have "expo r < - 2" by (intro expo_less) (simp_all add: p54)
      with fl_le_grid [of r 1 "- 2"] 2 have "fl r \<le> 1 / 4" by (simp add: p54)
      then show ?thesis by (simp add: fl_three_tenths)
    next
      case 3
      with that have "fl r = of_int (round_even (r / pow2 (- 2 - 52))) * pow2 (- 2 - 52)"
        by (intro fl_binade) (simp_all add: p54)
      moreover have "round_even (r / pow2 (- 2 - 52)) \<le> 5404319552844595"
        using that by (intro round_even_less_half) (simp add: p54)
      then have "(of_int (round_even (r / pow2 (- 2 - 52))) :: rat) \<le> of_int 5404319552844595"
        by (simp only: of_int_le_iff)
      then have "(of_int (round_even (r / pow2 (- 2 - 52))) :: rat) \<le> 5404319552844595"
        by simp
      ultimately show ?thesis by (simp add: fl_three_tenths p54)
    qed
  qed
  have high: "fl (3 / 10) < fl r" if "3 / 10 < r"
  proof (cases "r < 1 / 2")
    case True
    have mx: "0 < mx" using that by (cases "mx = 0") (simp_all add: r_def)
    from that mx have "3 * of_nat mx < (10 * of_nat mn :: rat)"
      by (simp add: r_def field_simps)
    then have "3 * mx < 10 * mn"
      by (metis (mono_tags) of_nat_less_iff of_nat_mult of_nat_numeral)
    then have "3 * mx + 1 \<le> 10 * mn" by simp
    then have "(of_nat (3 * mx + 1) :: rat) \<le> of_nat (10 * mn)" by (simp only: of_nat_le_iff)
    then have "3 * of_nat mx + 1 \<le> (10 * of_nat mn :: rat)" by simp
    then have "(3 * of_nat mx + 1) / (10 * of_nat mx) \<le> (10 * of_nat mn) / (10 * of_nat mx :: rat)"
      by (intro divide_right_mono) simp_all
    moreover have "(3 * of_nat mx + 1) / (10 * of_nat mx) = 3 / 10 + 1 / (10 * of_nat mx :: rat)"
      using mx by (simp add: add_divide_distrib)
    moreover have "(10 * of_nat mn) / (10 * of_nat mx :: rat) = r"
      by (simp add: r_def)
    ultimately have ge: "3 / 10 + 1 / (10 * of_nat mx) \<le> r"
      by simp
    have "(of_nat mx :: rat) < of_nat (2 ^ 52)" using assms(2) by (simp only: of_nat_less_iff)
    then have "(of_nat mx :: rat) < 2 ^ 52" by simp
    then have "1 / (10 * 2 ^ 52) < 1 / (10 * of_nat mx :: rat)"
      using mx by (intro divide_strict_left_mono) simp_all
    with ge have big: "3 / 10 + 1 / (10 * 2 ^ 52) < r" by linarith
    from that True have "fl r = of_int (round_even (r / pow2 (- 2 - 52))) * pow2 (- 2 - 52)"
      by (intro fl_binade) (simp_all add: p54)
    moreover have "5404319552844595 + 1 \<le> round_even (r / pow2 (- 2 - 52))"
      using big by (intro round_even_greater_half) (simp add: p54)
    then have "(of_int (5404319552844595 + 1) :: rat) \<le> of_int (round_even (r / pow2 (- 2 - 52)))"
      by (simp only: of_int_le_iff)
    then have "(5404319552844596 :: rat) \<le> of_int (round_even (r / pow2 (- 2 - 52)))"
      by simp
    ultimately show ?thesis by (simp add: fl_three_tenths p54)
  next
    case False
    then have x: "r \<noteq> 0" "\<bar>r\<bar> < pow2 1" using r by (simp_all add: pow2_def)
    from expo_less [OF this] fl_ge_grid [of 1 "- 1" r] False have "1 / 2 \<le> fl r"
      by (simp add: pow2_def)
    then show ?thesis by (simp add: fl_three_tenths)
  qed
  from low high show ?thesis unfolding r_def by (metis not_less)
qed

lemma literal_errors:
  "0 \<le> fl (4 / 10)" "fl (4 / 10) \<le> 1" "\<bar>fl (4 / 10) - 4 / 10\<bar> \<le> 1 / 2 ^ 54"
  "0 \<le> fl (3 / 10)" "fl (3 / 10) \<le> 1" "\<bar>fl (3 / 10) - 3 / 10\<bar> \<le> 1 / 2 ^ 54"
  using fl_unit [of "4 / 10"] fl_unit [of "3 / 10"] by simp_all

lemma position_term:
  assumes "v < 5"
  shows "0 \<le> fl (fl (1 - fl (of_nat v * fl (1 / 10))) * fl (3 / 10)) \<and>
         \<bar>fl (fl (1 - fl (of_nat v * fl (1 / 10))) * fl (3 / 10)) - (1 - of_nat v / 10) * (3 / 10)\<bar>
           \<le> 1 / 2 ^ 54"
proof -
  from assms consider "v = 0" | "v = 1" | "v = 2" | "v = 3" | "v = 4" by linarith
  then show ?thesis
  proof cases
    case 1 then show ?thesis by (simp only:) code_simp
  next
    case 2 then show ?thesis by (simp only:) code_simp
  next
    case 3 then show ?thesis by (simp only:) code_simp
  next
    case 4 then show ?thesis by (simp only:) code_simp
  next
    case 5 then show ?thesis by (simp only:) code_simp
  qed
qed

lemma score_error:
  fixes A :: rat and mn mx v :: nat
  assumes A: "0 \<le> A" "A \<le> 1" and v: "v < 5" and m: "mn \<le> mx" "mx < 2 ^ 52"
  shows "\<bar>fl (fl (fl (A * fl (4 / 10)) + fl (fl (1 - fl (of_nat v * fl (1 / 10))) * fl (3 / 10))) +
            fl ((if fl (of_nat mn / of_nat mx) > fl (3 / 10)
                 then fl (fl (of_nat mn / of_nat mx) * fl (3 / 10)) else 0) * fl (3 / 10))) -
         (A * (4 / 10) + (1 - of_nat v / 10) * (3 / 10) +
          (if (of_nat mn / of_nat mx :: rat) > 3 / 10 then of_nat mn / of_nat mx * (3 / 10) else 0)
            * (3 / 10))\<bar> \<le> 1 / 10 ^ 15"
proof -
  define u :: rat where "u = 1 / 2 ^ 54"
  define r :: rat where "r = of_nat mn / of_nat mx"
  have r: "0 \<le> r" "r \<le> 1" using m by (auto simp: r_def divide_le_eq_1)
  note L = literal_errors [folded u_def]
  define t1 where "t1 = fl (A * fl (4 / 10))"
  define t2 where "t2 = fl (fl (1 - fl (of_nat v * fl (1 / 10))) * fl (3 / 10))"
  define b where "b = (if fl r > fl (3 / 10) then fl (fl r * fl (3 / 10)) else 0)"
  define b0 where "b0 = (if r > 3 / 10 then r * (3 / 10) else 0)"
  define t3 where "t3 = fl (b * fl (3 / 10))"
  define a0 where "a0 = A * (4 / 10)"
  define p0 :: rat where "p0 = (1 - of_nat v / 10) * (3 / 10)"
  define c0 where "c0 = b0 * (3 / 10)"
  have T1: "0 \<le> t1" "t1 \<le> 1" "\<bar>t1 - a0\<bar> \<le> u + 0 + u"
    unfolding t1_def a0_def
    using fl_mult_unit [of A "fl (4 / 10)" A "4 / 10" 0 u] A L(1-3) by (simp_all add: u_def)
  have T2: "0 \<le> t2" "\<bar>t2 - p0\<bar> \<le> u"
    unfolding t2_def u_def p0_def using position_term [OF v] by simp_all
  have R: "0 \<le> fl r" "fl r \<le> 1" "\<bar>fl r - r\<bar> \<le> u"
    unfolding u_def using fl_unit [OF r] by simp_all
  have cond: "fl r > fl (3 / 10) \<longleftrightarrow> r > 3 / 10"
    unfolding r_def using m by (rule ratio_floor_exact)
  have r3: "0 \<le> r * (3 / 10)" "r * (3 / 10) \<le> 1" using r by simp_all
  have B: "0 \<le> b" "b \<le> 1" "\<bar>b - b0\<bar> \<le> u + u + u" "0 \<le> b0" "b0 \<le> 3 / 10"
  proof -
    have M: "0 \<le> fl (fl r * fl (3 / 10))" "fl (fl r * fl (3 / 10)) \<le> 1"
      "\<bar>fl (fl r * fl (3 / 10)) - r * (3 / 10)\<bar> \<le> u + u + u"
      using fl_mult_unit [of "fl r" "fl (3 / 10)" r "3 / 10" u u] R r L(4-6)
      by (simp_all add: u_def)
    have u0: "0 \<le> u" by (simp add: u_def)
    show "0 \<le> b" "b \<le> 1" using M by (simp_all add: b_def)
    show "\<bar>b - b0\<bar> \<le> u + u + u" using M u0 by (simp add: b_def b0_def cond)
    show "0 \<le> b0" "b0 \<le> 3 / 10" using r by (simp_all add: b0_def)
  qed
  have T3: "0 \<le> t3" "\<bar>t3 - c0\<bar> \<le> u + (u + u + u) + u"
  proof -
    have b01: "b0 \<le> 1" using B(5) by simp
    show "0 \<le> t3" "\<bar>t3 - c0\<bar> \<le> u + (u + u + u) + u"
      unfolding t3_def c0_def
      using fl_mult_unit [of b "fl (3 / 10)" b0 "3 / 10" "u + u + u" u] B b01 L(4-6)
      by (simp_all add: u_def)
  qed
  have small: "u \<le> 1 / 100" by (simp add: u_def)
  have A4: "a0 \<le> 4 / 10" using A by (simp add: a0_def)
  have v3: "p0 \<le> 3 / 10" by (simp add: p0_def)
  have b3: "c0 \<le> 9 / 100" using B(5) by (simp add: c0_def)
  define s1 where "s1 = fl (t1 + t2)"
  have S1: "0 \<le> s1" "\<bar>s1 - (a0 + p0)\<bar> \<le> u + (u + 0 + u) + u"
  proof -
    have "t1 + t2 \<le> 1" using T1(3) T2(2) A4 v3 small by linarith
    from fl_add_unit [OF T1(1) T2(1) this T1(3) T2(2)]
    show "0 \<le> s1" "\<bar>s1 - (a0 + p0)\<bar> \<le> u + (u + 0 + u) + u"
      by (simp_all add: s1_def u_def)
  qed
  have S: "\<bar>fl (s1 + t3) - (a0 + p0 + c0)\<bar>
      \<le> u + (u + (u + 0 + u) + u) + (u + (u + u + u) + u)"
  proof -
    have "s1 + t3 \<le> 1" using S1(2) T3(2) A4 v3 b3 small by linarith
    from fl_add_unit(3) [OF S1(1) T3(1) this S1(2) T3(2)]
    show ?thesis by (simp add: u_def)
  qed
  have "u + (u + (u + 0 + u) + u) + (u + (u + u + u) + u) \<le> 1 / 10 ^ 15"
    by (simp add: u_def)
  with S have "\<bar>fl (s1 + t3) - (a0 + p0 + c0)\<bar>
      \<le> 1 / 10 ^ 15" by linarith
  then show ?thesis
    unfolding s1_def t1_def t2_def t3_def b_def b0_def r_def a0_def p0_def c0_def .
qed

section \<open>The scoring of Level 2\<close>

text \<open>
  The window scan over increasing slots that all lie within the paragraphs: the score it
  returns bounds the score it started with and the score of every unused candidate, and
  the candidate it returns is the first one with that score.
\<close>

lemma scan_window_best:
  assumes "scan_window ns tp t used ws best = (bm, bs)"
    and "sorted_wrt (<) ws" and "\<forall>w \<in> set ws. t + w < length tp"
  shows "snd best \<le> bs \<and>
    (\<forall>w \<in> set ws. t + w \<notin> used \<longrightarrow> totalScore2 ns (normalize_text (tp ! (t + w))) w \<le> bs) \<and>
    ((bm, bs) = best \<or>
     (\<exists>w \<in> set ws. t + w \<notin> used \<and> bm = Some (t + w) \<and>
        bs = totalScore2 ns (normalize_text (tp ! (t + w))) w \<and> snd best < bs \<and>
        (\<forall>w' \<in> set ws. w' < w \<and> t + w' \<notin> used \<longrightarrow>
           totalScore2 ns (normalize_text (tp ! (t + w'))) w' < bs)))"
  using assms
proof (induction ws arbitrary: best)
  case Nil
  then show ?case by simp
next
  case (Cons w ws)
  from Cons.prems have sorted: "sorted_wrt (<) ws" and later: "\<forall>w' \<in> set ws. w < w'"
    and inr: "t + w < length tp" "\<forall>w \<in> set ws. t + w < length tp"
    by simp_all
  show ?case
  proof (cases "t + w \<in> used")
    case True
    with inr Cons.prems(1) have "scan_window ns tp t used ws best = (bm, bs)" by simp
    from Cons.IH [OF this sorted inr(2)] True show ?thesis by auto
  next
    case False
    define total where "total = totalScore2 ns (normalize_text (tp ! (t + w))) w"
    define best' where "best' = (if total > snd best then (Some (t + w), total) else best)"
    from inr False Cons.prems(1) have "scan_window ns tp t used ws best' = (bm, bs)"
      by (auto simp: Let_def best'_def total_def split: if_splits)
    note IH = Cons.IH [OF this sorted inr(2)]
    have b': "snd best \<le> snd best'" "total \<le> snd best'"
      by (simp_all add: best'_def)
    from IH consider (same) "(bm, bs) = best'"
      | (new) w' where "w' \<in> set ws" "t + w' \<notin> used" "bm = Some (t + w')"
        "bs = totalScore2 ns (normalize_text (tp ! (t + w'))) w'" "snd best' < bs"
        "\<forall>v \<in> set ws. v < w' \<and> t + v \<notin> used \<longrightarrow>
           totalScore2 ns (normalize_text (tp ! (t + v))) v < bs"
      by blast
    then show ?thesis
    proof cases
      case same
      show ?thesis
      proof (cases "total > snd best")
        case True
        with same have "bm = Some (t + w)" "bs = total" by (simp_all add: best'_def)
        with IH b' True False later show ?thesis
          by (auto simp: total_def)
      next
        case False
        with same have "(bm, bs) = best" by (simp add: best'_def)
        with IH b' show ?thesis using \<open>t + w \<notin> used\<close>
          by (auto simp: total_def)
      qed
    next
      case new
      from new(5) b' have "snd best < bs" "total < bs" by simp_all
      with IH b' new later show ?thesis
        by (auto simp: total_def)
    qed
  qed
qed


text \<open>The anchor-overlap score is 0, or the rounded quotient of two counts, and lies in \<open>[0, 1]\<close>.\<close>

lemma anchorScore_unit: "0 \<le> anchorScore a b \<and> anchorScore a b \<le> 1"
proof -
  define src where "src = extractAnchors a"
  define k where "k = length (filter (\<lambda>x. x \<in> set (extractAnchors b)) src)"
  have k: "k \<le> length src" by (simp add: k_def)
  have eq: "anchorScore a b = (if length src = 0 then 0 else fl (of_nat k / of_nat (length src)))"
    by (simp add: anchorScore_def Let_def src_def k_def)
  show ?thesis
  proof (cases "length src = 0")
    case True
    then show ?thesis by (simp add: eq)
  next
    case False
    then have "0 \<le> (of_nat k / of_nat (length src) :: rat)" "(of_nat k / of_nat (length src) :: rat) \<le> 1"
      using k by (simp_all add: divide_le_eq_1)
    from fl_unit(1,2) [OF this] False show ?thesis by (simp add: eq)
  qed
qed

text \<open>
  C7, as stated, fails on the length-ratio bonus: the source multiplies the ratio by 0.3
  to get the bonus and the bonus by 0.3 again in the sum. For the segment \<open>aaaa\<close> and the
  translated lines \<open>bbbb\<close> and \<open>c\<close> the claimed score of the first candidate is 0.6, which
  is not below 0.6; the source computes 0.39 (within rounding), and so the match is counted
  fuzzy.
\<close>

theorem window_score_counterexample:
  "spec_totalScore2 (js ''aaaa'') (js ''bbbb'') 0 = 6 / 10 \<and>
   \<bar>totalScore2 (js ''aaaa'') (js ''bbbb'') 0 - 39 / 100\<bar> \<le> 1 / 10 ^ 15 \<and>
   \<not> spec_totalScore2 (js ''aaaa'') (js ''bbbb'') 0 < fl (6 / 10) \<and>
   totalScore2 (js ''aaaa'') (js ''bbbb'') 0 < fl (6 / 10) \<and>
   st_fuzzy (stats (matchTexts_adaptive
     [\<lparr>seg_id = 0, seg_text = js ''aaaa'', xmlPath = js ''d''\<rparr>]
     (js ''bbbb'' @ [10] @ js ''c''))) = 1"
  by code_simp

text \<open>
  C7, amended. The score of the candidate in window slot \<open>w\<close> is computed in double
  arithmetic as the anchor-overlap score times 0.4, plus the position bonus \<open>1 - 0.1 w\<close>
  times 0.3, plus the length-ratio bonus times 0.3, where the bonus is 0.3 times the ratio
  of the shorter to the longer normalized length when that ratio exceeds 0.3, and 0
  otherwise; so the ratio enters the sum with the factor 0.09. For the slots of a window
  (\<open>w < 5\<close>) and strings shorter than \<open>2^52\<close> the computed score is within \<open>10^(-15)\<close> of the
  exact value of that sum. When a slot \<open>w\<close> of the window holds an unconsumed candidate
  whose computed score exceeds the double 0.2, is not below the score of any unconsumed
  candidate of the window and is above that of every earlier one, the loop body maps the
  segment to that candidate, marks it consumed, moves the scan pointer behind it, counts
  one more match, and counts the match fuzzy exactly when the score is below the double
  0.6; the list of unmatched segments and its counter stay as they are.
\<close>

theorem level2_window_scoring:
  "(v < 5 \<and> length a < 2 ^ 52 \<and> length b < 2 ^ 52 \<longrightarrow>
      \<bar>totalScore2 a b v -
         (anchorScore a b * (4 / 10) + (1 - of_nat v / 10) * (3 / 10) +
          (if of_nat (min (length a) (length b)) / of_nat (max (length a) (length b)) > (3 / 10 :: rat)
           then of_nat (min (length a) (length b)) / of_nat (max (length a) (length b)) * (3 / 10)
           else 0) * (3 / 10))\<bar> \<le> 1 / 10 ^ 15) \<and>
   (let score = (\<lambda>w. totalScore2 (normalize_text (seg_text seg))
                        (normalize_text (tp ! (tIdx st + w))) w);
        window = (\<lambda>w. w < min 5 (length tp - tIdx st) \<and> tIdx st + w \<notin> usedTranslations st);
        st' = level2_step tp seg st
    in window w \<and> score w > fl (2 / 10) \<and>
       (\<forall>w'. window w' \<longrightarrow> score w' \<le> score w \<and> (w' < w \<longrightarrow> score w' < score w)) \<longrightarrow>
       a_mapping st' = (a_mapping st)(seg_id seg \<mapsto> tp ! (tIdx st + w)) \<and>
       usedTranslations st' = insert (tIdx st + w) (usedTranslations st) \<and>
       tIdx st' = tIdx st + w + 1 \<and>
       a_unmatched st' = a_unmatched st \<and>
       st_matched (a_stats st') = st_matched (a_stats st) + 1 \<and>
       st_unmatched (a_stats st') = st_unmatched (a_stats st) \<and>
       st_fuzzy (a_stats st') = st_fuzzy (a_stats st) + (if score w < fl (6 / 10) then 1 else 0))"
proof (rule conjI)
  show "v < 5 \<and> length a < 2 ^ 52 \<and> length b < 2 ^ 52 \<longrightarrow>
      \<bar>totalScore2 a b v -
         (anchorScore a b * (4 / 10) + (1 - of_nat v / 10) * (3 / 10) +
          (if of_nat (min (length a) (length b)) / of_nat (max (length a) (length b)) > (3 / 10 :: rat)
           then of_nat (min (length a) (length b)) / of_nat (max (length a) (length b)) * (3 / 10)
           else 0) * (3 / 10))\<bar> \<le> 1 / 10 ^ 15"
  proof
    assume h: "v < 5 \<and> length a < 2 ^ 52 \<and> length b < 2 ^ 52"
    then have v: "v < 5" and mx: "max (length a) (length b) < 2 ^ 52" by simp_all
    have mn: "min (length a) (length b) \<le> max (length a) (length b)" by simp
    note A = anchorScore_unit [of a b]
    from score_error [OF A [THEN conjunct1] A [THEN conjunct2] v mn mx]
    show "\<bar>totalScore2 a b v -
         (anchorScore a b * (4 / 10) + (1 - of_nat v / 10) * (3 / 10) +
          (if of_nat (min (length a) (length b)) / of_nat (max (length a) (length b)) > (3 / 10 :: rat)
           then of_nat (min (length a) (length b)) / of_nat (max (length a) (length b)) * (3 / 10)
           else 0) * (3 / 10))\<bar> \<le> 1 / 10 ^ 15"
      unfolding totalScore2_def Let_def .
  qed
next
  define score where "score = (\<lambda>w. totalScore2 (normalize_text (seg_text seg))
                        (normalize_text (tp ! (tIdx st + w))) w)"
  define n where "n = min 5 (length tp - tIdx st)"
  define window where "window = (\<lambda>w. w < n \<and> tIdx st + w \<notin> usedTranslations st)"
  have main: "level2_step tp seg st = take_candidate tp seg (tIdx st + w) (score w < fl (6 / 10)) st"
    if w: "window w" and acc: "score w > fl (2 / 10)"
      and best: "\<forall>w'. window w' \<longrightarrow> score w' \<le> score w \<and> (w' < w \<longrightarrow> score w' < score w)"
  proof -
    obtain bm bs where res: "scan_window (normalize_text (seg_text seg)) tp (tIdx st)
        (usedTranslations st) [0 ..< n] (None, 0) = (bm, bs)"
      by (cases "scan_window (normalize_text (seg_text seg)) tp (tIdx st)
        (usedTranslations st) [0 ..< n] (None, 0)") auto
    have inr: "\<forall>w \<in> set [0 ..< n]. tIdx st + w < length tp"
      by (auto simp: n_def)
    have srt: "sorted_wrt (<) [0 ..< n]" by (simp add: strict_sorted_iff)
    have B: "snd (None :: nat option, 0 :: rat) \<le> bs \<and>
      (\<forall>w \<in> set [0 ..< n]. tIdx st + w \<notin> usedTranslations st \<longrightarrow> score w \<le> bs) \<and>
      ((bm, bs) = (None, 0) \<or>
       (\<exists>w \<in> set [0 ..< n]. tIdx st + w \<notin> usedTranslations st \<and> bm = Some (tIdx st + w) \<and>
          bs = score w \<and> snd (None :: nat option, 0 :: rat) < bs \<and>
          (\<forall>w' \<in> set [0 ..< n]. w' < w \<and> tIdx st + w' \<notin> usedTranslations st \<longrightarrow> score w' < bs)))"
      unfolding score_def by (rule scan_window_best [OF res srt inr])
    have d02: "0 < fl (2 / 10)" by code_simp
    from B w have "score w \<le> bs" by (auto simp: window_def)
    with acc have pos: "fl (2 / 10) < bs" by simp
    with d02 have "(bm, bs) \<noteq> (None, 0)" by auto
    with B obtain w0 where w0: "w0 < n" "tIdx st + w0 \<notin> usedTranslations st"
        "bm = Some (tIdx st + w0)" "bs = score w0"
        "\<forall>w' \<in> set [0 ..< n]. w' < w0 \<and> tIdx st + w' \<notin> usedTranslations st \<longrightarrow> score w' < bs"
      by auto
    have "w0 = w"
    proof (rule ccontr)
      assume "w0 \<noteq> w"
      then consider "w0 < w" | "w < w0" by linarith
      then show False
      proof cases
        case 1
        with best w0 have "score w0 < score w" by (simp add: window_def)
        with \<open>score w \<le> bs\<close> w0(4) show False by simp
      next
        case 2
        with w0(5) w have "score w < bs" by (simp add: window_def)
        moreover from best w0 have "score w0 \<le> score w" by (simp add: window_def)
        ultimately show False using w0(4) by simp
      qed
    qed
    with w0 pos res show ?thesis
      by (simp add: level2_step_def Let_def n_def [symmetric])
  qed
  have fields: "a_mapping st' = (a_mapping st)(seg_id seg \<mapsto> tp ! (tIdx st + w)) \<and>
       usedTranslations st' = insert (tIdx st + w) (usedTranslations st) \<and>
       tIdx st' = tIdx st + w + 1 \<and>
       a_unmatched st' = a_unmatched st \<and>
       st_matched (a_stats st') = st_matched (a_stats st) + 1 \<and>
       st_unmatched (a_stats st') = st_unmatched (a_stats st) \<and>
       st_fuzzy (a_stats st') = st_fuzzy (a_stats st) + (if score w < fl (6 / 10) then 1 else 0)"
    if "st' = take_candidate tp seg (tIdx st + w) (score w < fl (6 / 10)) st" for st'
    unfolding that by (simp add: take_candidate_def)
  have "window w \<and> score w > fl (2 / 10) \<and>
       (\<forall>w'. window w' \<longrightarrow> score w' \<le> score w \<and> (w' < w \<longrightarrow> score w' < score w)) \<longrightarrow>
       a_mapping (level2_step tp seg st) = (a_mapping st)(seg_id seg \<mapsto> tp ! (tIdx st + w)) \<and>
       usedTranslations (level2_step tp seg st) = insert (tIdx st + w) (usedTranslations st) \<and>
       tIdx (level2_step tp seg st) = tIdx st + w + 1 \<and>
       a_unmatched (level2_step tp seg st) = a_unmatched st \<and>
       st_matched (a_stats (level2_step tp seg st)) = st_matched (a_stats st) + 1 \<and>
       st_unmatched (a_stats (level2_step tp seg st)) = st_unmatched (a_stats st) \<and>
       st_fuzzy (a_stats (level2_step tp seg st)) =
         st_fuzzy (a_stats st) + (if score w < fl (6 / 10) then 1 else 0)"
  proof
    assume h: "window w \<and> score w > fl (2 / 10) \<and>
       (\<forall>w'. window w' \<longrightarrow> score w' \<le> score w \<and> (w' < w \<longrightarrow> score w' < score w))"
    then have "level2_step tp seg st =
        take_candidate tp seg (tIdx st + w) (score w < fl (6 / 10)) st"
      by (intro main) simp_all
    then show "a_mapping (level2_step tp seg st) = (a_mapping st)(seg_id seg \<mapsto> tp ! (tIdx st + w)) \<and>
       usedTranslations (level2_step tp seg st) = insert (tIdx st + w) (usedTranslations st) \<and>
       tIdx (level2_step tp seg st) = tIdx st + w + 1 \<and>
       a_unmatched (level2_step tp seg st) = a_unmatched st \<and>
       st_matched (a_stats (level2_step tp seg st)) = st_matched (a_stats st) + 1 \<and>
       st_unmatched (a_stats (level2_step tp seg st)) = st_unmatched (a_stats st) \<and>
       st_fuzzy (a_stats (level2_step tp seg st)) =
         st_fuzzy (a_stats st) + (if score w < fl (6 / 10) then 1 else 0)"
      by (rule fields)
  qed
  then show "let score = (\<lambda>w. totalScore2 (normalize_text (seg_text seg))
                        (normalize_text (tp ! (tIdx st + w))) w);
        window = (\<lambda>w. w < min 5 (length tp - tIdx st) \<and> tIdx st + w \<notin> usedTranslations st);
        st' = level2_step tp seg st
    in window w \<and> score w > fl (2 / 10) \<and>
       (\<forall>w'. window w' \<longrightarrow> score w' \<le> score w \<and> (w' < w \<longrightarrow> score w' < score w)) \<longrightarrow>
       a_mapping st' = (a_mapping st)(seg_id seg \<mapsto> tp ! (tIdx st + w)) \<and>
       usedTranslations st' = insert (tIdx st + w) (usedTranslations st) \<and>
       tIdx st' = tIdx st + w + 1 \<and>
       a_unmatched st' = a_unmatched st \<and>
       st_matched (a_stats st') = st_matched (a_stats st) + 1 \<and>
       st_unmatched (a_stats st') = st_unmatched (a_stats st) \<and>
       st_fuzzy (a_stats st') = st_fuzzy (a_stats st) + (if score w < fl (6 / 10) then 1 else 0)"
    unfolding Let_def score_def window_def n_def .
qed

theorem level2_window_scoring_witness:
  "a_mapping (level2_step [js ''b'', js ''cc''] \<lparr>seg_id = 0, seg_text = js ''aaa'', xmlPath = js ''d''\<rparr>
     (init_astate [\<lparr>seg_id = 0, seg_text = js ''aaa'', xmlPath = js ''d''\<rparr>])) 0 = Some (js ''cc'') \<and>
   tIdx (level2_step [js ''b'', js ''cc''] \<lparr>seg_id = 0, seg_text = js ''aaa'', xmlPath = js ''d''\<rparr>
     (init_astate [\<lparr>seg_id = 0, seg_text = js ''aaa'', xmlPath = js ''d''\<rparr>])) = 2 \<and>
   st_fuzzy (a_stats (level2_step [js ''b'', js ''cc'']
     \<lparr>seg_id = 0, seg_text = js ''aaa'', xmlPath = js ''d''\<rparr>
     (init_astate [\<lparr>seg_id = 0, seg_text = js ''aaa'', xmlPath = js ''d''\<rparr>]))) = 1 \<and>
   totalScore2 (js ''aaa'') (js ''b'') 0 < totalScore2 (js ''aaa'') (js ''cc'') 1 \<and>
   \<bar>totalScore2 (js ''aaa'') (js ''cc'') 1 - 33 / 100\<bar> \<le> 1 / 10 ^ 15"
proof -
  define seg where "seg = \<lparr>seg_id = 0, seg_text = js ''aaa'', xmlPath = js ''d''\<rparr>"
  define tp where "tp = [js ''b'', js ''cc'']"
  define st where "st = init_astate [seg]"
  define score where "score = (\<lambda>w. totalScore2 (normalize_text (seg_text seg))
                        (normalize_text (tp ! (tIdx st + w))) w)"
  have st: "tIdx st = 0" "usedTranslations st = {}" "a_mapping st = Map.empty"
    "st_fuzzy (a_stats st) = 0"
    by (simp_all add: st_def init_astate_def init_stats_def)
  have s0: "score 0 = totalScore2 (js ''aaa'') (js ''b'') 0"
    unfolding score_def st seg_def tp_def by code_simp
  have s1: "score 1 = totalScore2 (js ''aaa'') (js ''cc'') 1"
    unfolding score_def st seg_def tp_def by code_simp
  have lt: "totalScore2 (js ''aaa'') (js ''b'') 0 < totalScore2 (js ''aaa'') (js ''cc'') 1"
    by code_simp
  have acc: "fl (2 / 10) < totalScore2 (js ''aaa'') (js ''cc'') 1"
    by code_simp
  have fz: "totalScore2 (js ''aaa'') (js ''cc'') 1 < fl (6 / 10)"
    by code_simp
  have fz1: "score 1 < fl (6 / 10)" using fz by (simp only: s1)
  have a: "anchorScore (js ''aaa'') (js ''cc'') = 0"
    by code_simp
  have len: "length (js ''aaa'') = 3" "length (js ''cc'') = 2"
    by (simp_all add: js_def)
  have best: "\<forall>w'. w' < min 5 (length tp - tIdx st) \<and> tIdx st + w' \<notin> usedTranslations st \<longrightarrow>
      score w' \<le> score 1 \<and> (w' < 1 \<longrightarrow> score w' < score 1)"
  proof (intro allI impI)
    fix w'
    assume "w' < min 5 (length tp - tIdx st) \<and> tIdx st + w' \<notin> usedTranslations st"
    then have "w' = 0 \<or> w' = 1" by (auto simp: st tp_def)
    then show "score w' \<le> score 1 \<and> (w' < 1 \<longrightarrow> score w' < score 1)"
      using s0 s1 lt by auto
  qed
  have prem: "(1 < min 5 (length tp - tIdx st) \<and> tIdx st + 1 \<notin> usedTranslations st) \<and>
      fl (2 / 10) < score 1 \<and>
      (\<forall>w'. w' < min 5 (length tp - tIdx st) \<and> tIdx st + w' \<notin> usedTranslations st \<longrightarrow>
         score w' \<le> score 1 \<and> (w' < 1 \<longrightarrow> score w' < score 1))"
  proof -
    have "fl (2 / 10) < score 1" using acc by (simp only: s1)
    moreover have "1 < min 5 (length tp - tIdx st) \<and> tIdx st + 1 \<notin> usedTranslations st"
      by (simp add: st tp_def)
    ultimately show ?thesis using best by blast
  qed
  note T = level2_window_scoring [where a = "js ''aaa''" and b = "js ''cc''" and v = 1
      and seg = seg and tp = tp and st = st and w = 1, unfolded Let_def]
  from T [THEN conjunct2, rule_format, OF prem [unfolded score_def]]
  have "a_mapping (level2_step tp seg st) = (a_mapping st)(seg_id seg \<mapsto> tp ! (tIdx st + 1))"
    "tIdx (level2_step tp seg st) = tIdx st + 1 + 1"
    "st_fuzzy (a_stats (level2_step tp seg st)) =
       st_fuzzy (a_stats st) + (if score 1 < fl (6 / 10) then 1 else 0)"
    by (simp_all add: score_def)
  then have beh: "a_mapping (level2_step tp seg st) 0 = Some (js ''cc'')"
    "tIdx (level2_step tp seg st) = 2"
    "st_fuzzy (a_stats (level2_step tp seg st)) = 1"
    using fz1 by (simp_all add: st) (simp_all add: seg_def tp_def)
  from T [THEN conjunct1]
  have "\<bar>totalScore2 (js ''aaa'') (js ''cc'') 1 - 33 / 100\<bar> \<le> 1 / 10 ^ 15"
    by (simp add: a len)
  with beh lt show ?thesis
    unfolding st_def tp_def seg_def by simp
qed

section \<open>Replacing the text of a paragraph\<close>

lemma concat_split_keep: "concat (split_keep s) = s"
proof (induction s rule: split_keep.induct)
  case (1 s)
  define r where "r = dropWhile (\<lambda>c. \<not> is_space c) s"
  have s: "s = takeWhile (\<lambda>c. \<not> is_space c) s @ r"
    by (simp add: r_def)
  show ?case
  proof (cases "r = []")
    case True
    then show ?thesis
      using s by (subst split_keep.simps) (simp add: Let_def r_def [symmetric])
  next
    case False
    from "1.IH" [OF refl r_def False]
    have "concat (split_keep (dropWhile is_space r)) = dropWhile is_space r" .
    with False have "concat (split_keep s) =
        takeWhile (\<lambda>c. \<not> is_space c) s @ takeWhile is_space r @ dropWhile is_space r"
      by (subst split_keep.simps) (simp add: Let_def r_def [symmetric])
    with s show ?thesis by simp
  qed
qed

lemma concat_map_concat: "concat (map concat xss) = concat (concat xss)"
  by (induction xss) simp_all

text \<open>The chunk of a run is the chunk so far and a group of the next words.\<close>

lemma take_words_group:
  "take_words target chunk ws = (c, rest) \<Longrightarrow> \<exists>g. c = chunk @ concat g \<and> ws = g @ rest"
proof (induction ws arbitrary: chunk)
  case Nil
  then show ?case by simp
next
  case (Cons nextWord ws)
  define over where
    "over \<longleftrightarrow> length chunk > 0 \<and>
       of_nat (length chunk + length nextWord) > fl (target * fl (13 / 10))"
  define reached where
    "reached \<longleftrightarrow> of_nat (length (chunk @ nextWord)) \<ge> target \<and> ws \<noteq> []"
  have eq: "take_words target chunk (nextWord # ws) =
      (if over then (chunk, nextWord # ws)
       else if reached then (chunk @ nextWord, ws)
       else take_words target (chunk @ nextWord) ws)"
    unfolding over_def reached_def by (simp only: take_words.simps Let_def)
  consider (a) over | (b) "\<not> over" reached | (c) "\<not> over" "\<not> reached"
    by blast
  then show ?case
  proof cases
    case a
    with Cons.prems eq have "c = chunk" "rest = nextWord # ws" by simp_all
    then have "c = chunk @ concat [] \<and> nextWord # ws = [] @ rest" by simp
    then show ?thesis by blast
  next
    case b
    with Cons.prems eq have "c = chunk @ nextWord" "rest = ws" by simp_all
    then have "c = chunk @ concat [nextWord] \<and> nextWord # ws = [nextWord] @ rest" by simp
    then show ?thesis by blast
  next
    case c
    with Cons.prems eq have "take_words target (chunk @ nextWord) ws = (c, rest)" by simp
    from Cons.IH [OF this] obtain g where "c = (chunk @ nextWord) @ concat g" "ws = g @ rest"
      by blast
    then have "c = chunk @ concat (nextWord # g) \<and> nextWord # ws = (nextWord # g) @ rest"
      by simp
    then show ?thesis by blast
  qed
qed

text \<open>The chunks are groups of consecutive words, one group for each target.\<close>

lemma distribute_groups:
  "\<exists>gs. length gs = length ts \<and> distribute ts ws = map concat gs \<and>
        (ts \<noteq> [] \<longrightarrow> concat gs = ws)"
proof (induction ts ws rule: distribute.induct)
  case (1 ws)
  show ?case by simp
next
  case (2 target ws)
  have "length [ws] = length [target] \<and> distribute [target] ws = map concat [ws] \<and>
      ([target] \<noteq> [] \<longrightarrow> concat [ws] = ws)"
    by simp
  then show ?case by blast
next
  case (3 target t ts ws)
  obtain chunk rest where tw: "take_words target [] ws = (chunk, rest)"
    by (cases "take_words target [] ws") auto
  from take_words_group [OF this] obtain g where g: "chunk = concat g" "ws = g @ rest"
    by auto
  from "3.IH" [OF tw [symmetric] refl] obtain gs where
    gs: "length gs = length (t # ts)" "distribute (t # ts) rest = map concat gs"
      "concat gs = rest"
    by auto
  have "length (g # gs) = length (target # t # ts) \<and>
      distribute (target # t # ts) ws = map concat (g # gs) \<and>
      (target # t # ts \<noteq> [] \<longrightarrow> concat (g # gs) = ws)"
    using tw g gs by simp
  then show ?case by blast
qed

lemma runText_set_run_text:
  "runText r \<noteq> [] \<Longrightarrow> runText (set_run_text r c) = c"
  by (cases "textNodes r") (simp_all add: runText_def set_run_text_def)

lemma rPr_set_run_text: "rPr (set_run_text r c) = rPr r"
  by (simp add: set_run_text_def)

text \<open>
  Writing as many chunks as there are runs with text: the runs without text stay, and the
  flattened text of the paragraph is the chunks in a row.
\<close>

lemma write_chunks_text:
  "length (filter (\<lambda>r. length (runText r) > 0) runs) = length cs \<Longrightarrow>
   extractTextFromParagraph (write_chunks runs cs) = concat cs"
proof (induction runs arbitrary: cs)
  case Nil
  then show ?case by (simp add: extractTextFromParagraph_def)
next
  case (Cons r runs)
  show ?case
  proof (cases "length (runText r) > 0")
    case True
    with Cons.prems obtain c cs' where cs: "cs = c # cs'"
      "length (filter (\<lambda>r. length (runText r) > 0) runs) = length cs'"
      by (cases cs) auto
    from Cons.IH [OF cs(2)] True show ?thesis
      by (simp add: cs extractTextFromParagraph_def runText_set_run_text)
  next
    case False
    with Cons.prems Cons.IH [of cs] show ?thesis
      by (simp add: extractTextFromParagraph_def)
  qed
qed

lemma write_chunks_rPr: "map rPr (write_chunks runs cs) = map rPr runs"
  by (induction runs arbitrary: cs) (auto simp: rPr_set_run_text split: list.splits)

lemma write_chunks_single:
  "length (filter (\<lambda>r. length (runText r) > 0) runs) = 1 \<Longrightarrow>
   write_chunks runs [c] = map (\<lambda>r. if length (runText r) > 0 then set_run_text r c else r) runs"
proof (induction runs)
  case Nil
  then show ?case by simp
next
  case (Cons r runs)
  show ?case
  proof (cases "length (runText r) > 0")
    case True
    with Cons.prems have none: "filter (\<lambda>r. length (runText r) > 0) runs = []" by simp
    have "write_chunks runs [] = runs" for runs
      by (induction runs) simp_all
    moreover from none have "map (\<lambda>r. if length (runText r) > 0 then set_run_text r c else r) runs = runs"
      by (induction runs) (auto split: if_splits)
    ultimately show ?thesis using True by simp
  next
    case False
    with Cons show ?thesis by simp
  qed
qed


text \<open>
  C1. For every paragraph with at least one run whose text is not empty, and every new
  text: after \<open>replaceParagraphText\<close> (and \<open>replacePptxParagraphText\<close>) the flattened text of
  the paragraph is exactly the new text. When exactly one run carries text, that run takes
  the whole new text and the other runs stay as they are. When several runs carry text,
  the tokens of the new text (words and runs of white space) are cut into as many groups of
  consecutive tokens as there are runs with text, and those runs take, in order, the
  groups with their tokens put together.
\<close>

theorem replace_text_flattened:
  assumes "\<exists>r \<in> set runs. runText r \<noteq> []"
  shows "extractTextFromParagraph (replaceParagraphText runs newText) = newText \<and>
    extractTextFromParagraph (replacePptxParagraphText runs newText) = newText \<and>
    (length (filter (\<lambda>r. length (runText r) > 0) runs) = 1 \<longrightarrow>
       replaceParagraphText runs newText =
       map (\<lambda>r. if length (runText r) > 0 then set_run_text r newText else r) runs) \<and>
    (length (filter (\<lambda>r. length (runText r) > 0) runs) > 1 \<longrightarrow>
       (\<exists>groups. length groups = length (filter (\<lambda>r. length (runText r) > 0) runs) \<and>
          concat groups = split_keep newText \<and>
          replaceParagraphText runs newText = write_chunks runs (map concat groups)))"
proof -
  define textRuns where "textRuns = filter (\<lambda>r. length (runText r) > 0) runs"
  define targets where "targets =
    map (\<lambda>ri. js_round (fl (fl (of_nat (length (runText ri)) /
             of_nat (sum_list (map (\<lambda>r. length (runText r)) runs))) *
             of_nat (length newText)))) textRuns"
  from assms have ne: "runs \<noteq> []" "textRuns \<noteq> []"
    by (auto simp: textRuns_def filter_empty_conv)
  have unfolded: "replaceParagraphText runs newText =
      (if length runs = 0 then runs
       else if length textRuns = 0 then runs
       else if length textRuns = 1 then write_chunks runs [newText]
       else write_chunks runs (distribute targets (split_keep newText)))"
    unfolding replaceParagraphText_def Let_def targets_def textRuns_def by (rule refl)
  have single: "replaceParagraphText runs newText = write_chunks runs [newText]"
    if "length textRuns = 1"
    using that ne by (simp add: unfolded)
  have multi: "replaceParagraphText runs newText =
      write_chunks runs (distribute targets (split_keep newText))"
    if "length textRuns > 1"
    using that ne by (simp add: unfolded)
  obtain gs where gs: "length gs = length targets"
      "distribute targets (split_keep newText) = map concat gs"
      "targets \<noteq> [] \<longrightarrow> concat gs = split_keep newText"
    using distribute_groups [of targets "split_keep newText"] by blast
  have lt: "length targets = length textRuns" by (simp add: targets_def)
  have flat: "extractTextFromParagraph (replaceParagraphText runs newText) = newText"
  proof (cases "length textRuns = 1")
    case True
    then have "length (filter (\<lambda>r. length (runText r) > 0) runs) = length [newText]"
      by (simp only: textRuns_def list.size)
    from write_chunks_text [OF this] True show ?thesis
      by (simp add: single)
  next
    case False
    with ne have many: "length textRuns > 1" by (cases textRuns) auto
    then have "targets \<noteq> []" using lt by auto
    with gs have "concat (map concat gs) = newText"
      by (simp add: concat_split_keep concat_map_concat)
    moreover have "length (filter (\<lambda>r. length (runText r) > 0) runs) = length (map concat gs)"
      using gs(1) lt by (simp only: textRuns_def length_map)
    from write_chunks_text [OF this]
    have "extractTextFromParagraph (write_chunks runs (map concat gs)) = concat (map concat gs)" .
    ultimately show ?thesis
      using many gs(2) by (simp add: multi)
  qed
  have one: "replaceParagraphText runs newText =
       map (\<lambda>r. if length (runText r) > 0 then set_run_text r newText else r) runs"
    if "length textRuns = 1"
    using that write_chunks_single [of runs newText] by (simp only: single textRuns_def)
  have more: "\<exists>groups. length groups = length textRuns \<and>
          concat groups = split_keep newText \<and>
          replaceParagraphText runs newText = write_chunks runs (map concat groups)"
    if "length textRuns > 1"
  proof -
    from that lt have "targets \<noteq> []" by auto
    with gs lt that have "length gs = length textRuns \<and> concat gs = split_keep newText \<and>
        replaceParagraphText runs newText = write_chunks runs (map concat gs)"
      by (simp add: multi)
    then show ?thesis by blast
  qed
  show ?thesis
    unfolding replacePptxParagraphText_def
  proof (intro conjI impI)
    show "extractTextFromParagraph (replaceParagraphText runs newText) = newText"
      "extractTextFromParagraph (replaceParagraphText runs newText) = newText"
      by (rule flat)+
    assume "length (filter (\<lambda>r. length (runText r) > 0) runs) = 1"
    then show "replaceParagraphText runs newText =
       map (\<lambda>r. if length (runText r) > 0 then set_run_text r newText else r) runs"
      by (intro one) (simp only: textRuns_def)
  next
    assume "length (filter (\<lambda>r. length (runText r) > 0) runs) > 1"
    then have "length textRuns > 1" by (simp only: textRuns_def)
    from more [OF this]
    show "\<exists>groups. length groups = length (filter (\<lambda>r. length (runText r) > 0) runs) \<and>
          concat groups = split_keep newText \<and>
          replaceParagraphText runs newText = write_chunks runs (map concat groups)"
      by (simp only: textRuns_def)
  qed
qed

theorem replace_text_flattened_witness:
  "map runText (replaceParagraphText
      [\<lparr>rPr = Some [OtherProp ''b''], textNodes = [js ''Hello '']\<rparr>,
       \<lparr>rPr = None, textNodes = []\<rparr>,
       \<lparr>rPr = None, textNodes = [js ''wor'', js ''ld'']\<rparr>]
      (js ''Bonjour le monde'')) = [js ''Bonjour le'', [], js '' monde''] \<and>
   extractTextFromParagraph (replaceParagraphText
      [\<lparr>rPr = Some [OtherProp ''b''], textNodes = [js ''Hello '']\<rparr>,
       \<lparr>rPr = None, textNodes = []\<rparr>,
       \<lparr>rPr = None, textNodes = [js ''wor'', js ''ld'']\<rparr>]
      (js ''Bonjour le monde'')) = js ''Bonjour le monde'' \<and>
   replaceParagraphText
      [\<lparr>rPr = None, textNodes = []\<rparr>, \<lparr>rPr = None, textNodes = [js ''wor'', js ''ld'']\<rparr>]
      (js ''monde'') =
      [\<lparr>rPr = None, textNodes = []\<rparr>, \<lparr>rPr = None, textNodes = [js ''monde'', []]\<rparr>]"
proof -
  define p3 where "p3 = [\<lparr>rPr = Some [OtherProp ''b''], textNodes = [js ''Hello '']\<rparr>,
       \<lparr>rPr = None, textNodes = []\<rparr>,
       \<lparr>rPr = None, textNodes = [js ''wor'', js ''ld'']\<rparr>]"
  define p2 where "p2 = [\<lparr>rPr = None, textNodes = []\<rparr>,
       \<lparr>rPr = None, textNodes = [js ''wor'', js ''ld'']\<rparr>]"
  have h3: "\<exists>r \<in> set p3. runText r \<noteq> []"
    by (simp add: p3_def runText_def js_def)
  have h2: "\<exists>r \<in> set p2. runText r \<noteq> []"
    by (simp add: p2_def runText_def js_def)
  have c: "map runText (replaceParagraphText p3 (js ''Bonjour le monde''))
      = [js ''Bonjour le'', [], js '' monde'']"
    unfolding p3_def by code_simp
  have one: "length (filter (\<lambda>r. length (runText r) > 0) p2) = 1"
    by (simp add: p2_def runText_def js_def)
  have "replaceParagraphText p2 (js ''monde'') =
      map (\<lambda>r. if length (runText r) > 0 then set_run_text r (js ''monde'') else r) p2"
    using replace_text_flattened [OF h2, of "js ''monde''"] one by blast
  then have s: "replaceParagraphText p2 (js ''monde'') =
      [\<lparr>rPr = None, textNodes = []\<rparr>, \<lparr>rPr = None, textNodes = [js ''monde'', []]\<rparr>]"
    by (simp add: p2_def runText_def set_run_text_def js_def)
  from replace_text_flattened [OF h3, of "js ''Bonjour le monde''"] c s
  show ?thesis
    unfolding p3_def p2_def by blast
qed

section \<open>The untranslated flag\<close>

lemma replaceParagraphText_cases:
  "replaceParagraphText runs t = runs \<or> (\<exists>cs. replaceParagraphText runs t = write_chunks runs cs)"
  unfolding replaceParagraphText_def Let_def by (simp only: split: if_split) blast

lemma replaceParagraphText_rPr: "map rPr (replaceParagraphText runs t) = map rPr runs"
  using replaceParagraphText_cases [of runs t] by (auto simp: write_chunks_rPr)

lemma highlight_run_flagged: "flagged red (highlight_run red r)"
  by (simp add: flagged_def highlight_run_def)

lemma highlight_run_text: "textNodes (highlight_run red r) = textNodes r"
  by (simp add: highlight_run_def Let_def)

text \<open>
  The loop over the content paragraphs of a file changes paragraph \<open>i\<close>, for \<open>i\<close> below the
  count, by the replacement or the highlight, and no other paragraph.
\<close>

lemma rebuild_fold_nth:
  "n \<le> length paras \<Longrightarrow>
   length (fold (rebuild_step R H m segs) [0 ..< n] paras) = length paras \<and>
   (\<forall>i < length paras.
      fold (rebuild_step R H m segs) [0 ..< n] paras ! i =
      (if i < n
       then (case m (seg_id (segs ! i)) of Some t \<Rightarrow> R (paras ! i) t | None \<Rightarrow> H (paras ! i))
       else paras ! i))"
proof (induction n)
  case 0
  show ?case by simp
next
  case (Suc n)
  then have IH: "length (fold (rebuild_step R H m segs) [0 ..< n] paras) = length paras"
    "\<And>i. i < length paras \<Longrightarrow>
      fold (rebuild_step R H m segs) [0 ..< n] paras ! i =
      (if i < n
       then (case m (seg_id (segs ! i)) of Some t \<Rightarrow> R (paras ! i) t | None \<Rightarrow> H (paras ! i))
       else paras ! i)"
    and n: "n < length paras"
    by simp_all
  define ps where "ps = fold (rebuild_step R H m segs) [0 ..< n] paras"
  have step: "fold (rebuild_step R H m segs) [0 ..< Suc n] paras = rebuild_step R H m segs n ps"
    by (simp add: ps_def)
  have len: "length (rebuild_step R H m segs n ps) = length paras"
    using IH(1) by (simp add: rebuild_step_def Let_def ps_def split: option.splits)
  have nth: "rebuild_step R H m segs n ps ! i =
      (if i < Suc n
       then (case m (seg_id (segs ! i)) of Some t \<Rightarrow> R (paras ! i) t | None \<Rightarrow> H (paras ! i))
       else paras ! i)" if "i < length paras" for i
  proof (cases "i = n")
    case True
    with IH n show ?thesis
      by (simp add: rebuild_step_def Let_def ps_def split: option.splits)
  next
    case False
    with IH(2) [OF that] that show ?thesis
      by (auto simp: rebuild_step_def Let_def ps_def split: option.splits)
  qed
  show ?case
    unfolding step using len nth by blast
qed

lemma rebuild_file_nth:
  assumes "i < length paras" "i < length segs"
  shows "rebuild_file R H m segs paras ! i =
    (case m (seg_id (segs ! i)) of Some t \<Rightarrow> R (paras ! i) t | None \<Rightarrow> H (paras ! i))"
  using assms rebuild_fold_nth [of "min (length paras) (length segs)" paras R H m segs]
  by (simp add: rebuild_file_def Let_def)


lemma rebuild_file_unit:
  assumes i: "i < length paras" "i < length segs"
    and R: "\<And>p t. map rPr (R p t) = map rPr p"
    and H: "H = map (highlight_run red)"
  shows "(m (seg_id (segs ! i)) = None \<longrightarrow>
           list_all (flagged red) (rebuild_file R H m segs paras ! i) \<and>
           map textNodes (rebuild_file R H m segs paras ! i) = map textNodes (paras ! i)) \<and>
         (\<forall>t. m (seg_id (segs ! i)) = Some t \<longrightarrow>
           rebuild_file R H m segs paras ! i = R (paras ! i) t \<and>
           map rPr (rebuild_file R H m segs paras ! i) = map rPr (paras ! i))"
  using R
  by (auto simp: rebuild_file_nth [OF i] H list_all_iff highlight_run_flagged
      highlight_run_text)

text \<open>
  C9, as stated, fails for a matched unit whose runs carried a red highlight before the
  rewrite: the replacement of the text leaves the run properties as they are.
\<close>

theorem matched_unit_flag_counterexample:
  "rebuildDocx
     [(js ''d'', [[\<lparr>rPr = Some [Highlight ''red''], textNodes = [js ''Hello'']\<rparr>]])]
     [\<lparr>seg_id = 0, seg_text = js ''Hello'', xmlPath = js ''d''\<rparr>]
     [0 \<mapsto> js ''Bonjour''] =
   [(js ''d'', [[\<lparr>rPr = Some [Highlight ''red''], textNodes = [js ''Bonjour'']\<rparr>]])] \<and>
   flagged ''red'' \<lparr>rPr = Some [Highlight ''red''], textNodes = [js ''Bonjour'']\<rparr>"
  by code_simp

text \<open>
  C9, amended. After the rewrite of a file (DOCX) or slide (PPTX), for every content
  paragraph that goes with a segment: when the segment has no entry in the mapping, every
  run of the paragraph carries the red highlight and the text nodes are as before; when
  the segment has an entry, the paragraph is the result of the text replacement, whose
  runs have the run properties they had before, so that the rewrite adds no highlight to
  a matched unit.
\<close>

theorem unmatched_units_flagged:
  "(k < length xmlFiles \<longrightarrow>
   (let fileSegments = filter (\<lambda>seg. xmlPath seg = fst (xmlFiles ! k)) segments;
        contentParas = filter isContentParagraph (snd (xmlFiles ! k));
        out = snd (rebuildDocx xmlFiles segments m ! k)
    in \<forall>i. i < length contentParas \<and> i < length fileSegments \<longrightarrow>
         (m (seg_id (fileSegments ! i)) = None \<longrightarrow>
            list_all (flagged ''red'') (out ! i) \<and>
            map textNodes (out ! i) = map textNodes (contentParas ! i)) \<and>
         (\<forall>t. m (seg_id (fileSegments ! i)) = Some t \<longrightarrow>
            out ! i = replaceParagraphText (contentParas ! i) t \<and>
            map rPr (out ! i) = map rPr (contentParas ! i)))) \<and>
   (j < length slides \<longrightarrow>
   (let fileSegments = filter (\<lambda>seg. xmlPath seg = fst (slides ! j)) segments;
        contentParas = concat (map (filter isContentParagraph) (snd (slides ! j)));
        out = snd (rebuildPptx slides segments m ! j)
    in \<forall>i. i < length contentParas \<and> i < length fileSegments \<longrightarrow>
         (m (seg_id (fileSegments ! i)) = None \<longrightarrow>
            list_all (flagged ''FF0000'') (out ! i) \<and>
            map textNodes (out ! i) = map textNodes (contentParas ! i)) \<and>
         (\<forall>t. m (seg_id (fileSegments ! i)) = Some t \<longrightarrow>
            out ! i = replacePptxParagraphText (contentParas ! i) t \<and>
            map rPr (out ! i) = map rPr (contentParas ! i))))"
proof (intro conjI impI)
  assume k: "k < length xmlFiles"
  define fileSegments where "fileSegments = filter (\<lambda>seg. xmlPath seg = fst (xmlFiles ! k)) segments"
  define contentParas where "contentParas = filter isContentParagraph (snd (xmlFiles ! k))"
  define out where "out = snd (rebuildDocx xmlFiles segments m ! k)"
  have out: "out = rebuild_file replaceParagraphText highlightParagraphRed m fileSegments contentParas"
    if "fileSegments \<noteq> []"
    using k that
    by (simp add: out_def rebuildDocx_def Let_def case_prod_beta fileSegments_def contentParas_def)
  have "(m (seg_id (fileSegments ! i)) = None \<longrightarrow>
            list_all (flagged ''red'') (out ! i) \<and>
            map textNodes (out ! i) = map textNodes (contentParas ! i)) \<and>
         (\<forall>t. m (seg_id (fileSegments ! i)) = Some t \<longrightarrow>
            out ! i = replaceParagraphText (contentParas ! i) t \<and>
            map rPr (out ! i) = map rPr (contentParas ! i))"
    if i: "i < length contentParas" "i < length fileSegments" for i
  proof -
    from i have "fileSegments \<noteq> []" by auto
    note o = out [OF this]
    have H: "highlightParagraphRed = map (highlight_run ''red'')"
      by (rule ext) (simp add: highlightParagraphRed_def)
    show ?thesis
      unfolding o by (rule rebuild_file_unit [OF i replaceParagraphText_rPr H])
  qed
  then show "let fileSegments = filter (\<lambda>seg. xmlPath seg = fst (xmlFiles ! k)) segments;
        contentParas = filter isContentParagraph (snd (xmlFiles ! k));
        out = snd (rebuildDocx xmlFiles segments m ! k)
    in \<forall>i. i < length contentParas \<and> i < length fileSegments \<longrightarrow>
         (m (seg_id (fileSegments ! i)) = None \<longrightarrow>
            list_all (flagged ''red'') (out ! i) \<and>
            map textNodes (out ! i) = map textNodes (contentParas ! i)) \<and>
         (\<forall>t. m (seg_id (fileSegments ! i)) = Some t \<longrightarrow>
            out ! i = replaceParagraphText (contentParas ! i) t \<and>
            map rPr (out ! i) = map rPr (contentParas ! i))"
    unfolding Let_def fileSegments_def contentParas_def out_def by blast
next
  assume k: "j < length slides"
  define fileSegments where "fileSegments = filter (\<lambda>seg. xmlPath seg = fst (slides ! j)) segments"
  define contentParas where "contentParas = concat (map (filter isContentParagraph) (snd (slides ! j)))"
  define out where "out = snd (rebuildPptx slides segments m ! j)"
  have out: "out = rebuild_file replacePptxParagraphText highlightPptxParagraphRed m fileSegments contentParas"
    if "fileSegments \<noteq> []"
    using k that
    by (simp add: out_def rebuildPptx_def Let_def case_prod_beta fileSegments_def contentParas_def)
  have "(m (seg_id (fileSegments ! i)) = None \<longrightarrow>
            list_all (flagged ''FF0000'') (out ! i) \<and>
            map textNodes (out ! i) = map textNodes (contentParas ! i)) \<and>
         (\<forall>t. m (seg_id (fileSegments ! i)) = Some t \<longrightarrow>
            out ! i = replacePptxParagraphText (contentParas ! i) t \<and>
            map rPr (out ! i) = map rPr (contentParas ! i))"
    if i: "i < length contentParas" "i < length fileSegments" for i
  proof -
    from i have "fileSegments \<noteq> []" by auto
    note o = out [OF this]
    have H: "highlightPptxParagraphRed = map (highlight_run ''FF0000'')"
      by (rule ext) (simp add: highlightPptxParagraphRed_def)
    have R: "map rPr (replacePptxParagraphText p t) = map rPr p" for p t
      by (simp add: replacePptxParagraphText_def replaceParagraphText_rPr)
    show ?thesis
      unfolding o by (rule rebuild_file_unit [OF i R H])
  qed
  then show "let fileSegments = filter (\<lambda>seg. xmlPath seg = fst (slides ! j)) segments;
        contentParas = concat (map (filter isContentParagraph) (snd (slides ! j)));
        out = snd (rebuildPptx slides segments m ! j)
    in \<forall>i. i < length contentParas \<and> i < length fileSegments \<longrightarrow>
         (m (seg_id (fileSegments ! i)) = None \<longrightarrow>
            list_all (flagged ''FF0000'') (out ! i) \<and>
            map textNodes (out ! i) = map textNodes (contentParas ! i)) \<and>
         (\<forall>t. m (seg_id (fileSegments ! i)) = Some t \<longrightarrow>
            out ! i = replacePptxParagraphText (contentParas ! i) t \<and>
            map rPr (out ! i) = map rPr (contentParas ! i))"
    unfolding Let_def fileSegments_def contentParas_def out_def by blast
qed

theorem unmatched_units_flagged_witness:
  "list_all (flagged ''red'')
     (snd (rebuildDocx
        [(js ''d'', [[\<lparr>rPr = None, textNodes = [js ''Hello'']\<rparr>],
                     [\<lparr>rPr = None, textNodes = [js '' '']\<rparr>],
                     [\<lparr>rPr = Some [Highlight ''yellow'', OtherProp ''b''], textNodes = [js ''World'']\<rparr>,
                      \<lparr>rPr = None, textNodes = []\<rparr>]])]
        [\<lparr>seg_id = 0, seg_text = js ''Hello'', xmlPath = js ''d''\<rparr>,
         \<lparr>seg_id = 1, seg_text = js ''World'', xmlPath = js ''d''\<rparr>]
        [0 \<mapsto> js ''Bonjour''] ! 0) ! 1) \<and>
   snd (rebuildDocx
        [(js ''d'', [[\<lparr>rPr = None, textNodes = [js ''Hello'']\<rparr>],
                     [\<lparr>rPr = None, textNodes = [js '' '']\<rparr>],
                     [\<lparr>rPr = Some [Highlight ''yellow'', OtherProp ''b''], textNodes = [js ''World'']\<rparr>,
                      \<lparr>rPr = None, textNodes = []\<rparr>]])]
        [\<lparr>seg_id = 0, seg_text = js ''Hello'', xmlPath = js ''d''\<rparr>,
         \<lparr>seg_id = 1, seg_text = js ''World'', xmlPath = js ''d''\<rparr>]
        [0 \<mapsto> js ''Bonjour''] ! 0) =
     [[\<lparr>rPr = None, textNodes = [js ''Bonjour'']\<rparr>],
      [\<lparr>rPr = Some [OtherProp ''b'', Highlight ''red''], textNodes = [js ''World'']\<rparr>,
       \<lparr>rPr = Some [Highlight ''red''], textNodes = []\<rparr>]]"
proof -
  define files where "files =
        [(js ''d'', [[\<lparr>rPr = None, textNodes = [js ''Hello'']\<rparr>],
                     [\<lparr>rPr = None, textNodes = [js '' '']\<rparr>],
                     [\<lparr>rPr = Some [Highlight ''yellow'', OtherProp ''b''], textNodes = [js ''World'']\<rparr>,
                      \<lparr>rPr = None, textNodes = []\<rparr>]])]"
  define segs where "segs =
        [\<lparr>seg_id = 0, seg_text = js ''Hello'', xmlPath = js ''d''\<rparr>,
         \<lparr>seg_id = 1, seg_text = js ''World'', xmlPath = js ''d''\<rparr>]"
  define m :: "nat \<rightharpoonup> jstring" where "m = [0 \<mapsto> js ''Bonjour'']"
  have fs: "filter (\<lambda>seg. xmlPath seg = fst (files ! 0)) segs = segs"
    by (simp add: files_def segs_def)
  have cp: "length (filter isContentParagraph (snd (files ! 0))) = 2"
    unfolding files_def by code_simp
  have un: "m (seg_id (segs ! 1)) = None"
    by (simp add: m_def segs_def)
  have res: "snd (rebuildDocx files segs m ! 0) =
     [[\<lparr>rPr = None, textNodes = [js ''Bonjour'']\<rparr>],
      [\<lparr>rPr = Some [OtherProp ''b'', Highlight ''red''], textNodes = [js ''World'']\<rparr>,
       \<lparr>rPr = Some [Highlight ''red''], textNodes = []\<rparr>]]"
    unfolding files_def segs_def m_def by code_simp
  have k: "0 < length files" by (simp add: files_def)
  note T = unmatched_units_flagged [where k = 0 and xmlFiles = files and segments = segs
      and m = m, THEN conjunct1, rule_format, OF k, unfolded Let_def fs, rule_format, of 1]
  have "list_all (flagged ''red'') (snd (rebuildDocx files segs m ! 0) ! 1)"
    using T un cp by (simp add: segs_def)
  with res show ?thesis
    unfolding files_def segs_def m_def by simp
qed

end
